theory Spec2Isabelle
  imports Complex_Main "HOL-Library.Word"
begin

section \<open>Epistemic verification (README, "Epistemic Verification Protocol")\<close>

text \<open>
  The verifier of the README:
  \<^verbatim>\<open>
  async def verify_claim(self, claim: str, sources: List[Source]) -> VerificationResult:
      counter_evidence = await self.search_contradictions(claim)
      if counter_evidence:
          return DisputedClaim(claim, counter_evidence, confidence=0.4)
      return VerifiedFact(claim, confidence=0.9)
  \<close>
  The contradiction search is an external lookup: it is a parameter of the model, and
  an exception it raises leaves \<open>verify_claim\<close> as it would in Python. The
  confidence bands are the decimal literals of the source, taken as exact numbers;
  no arithmetic is done on them.
\<close>

type_synonym source_ref = string
type_synonym evidence = string

datatype py_exception = PyException string

datatype verification_result =
    DisputedClaim string "evidence list" real
  | VerifiedFact string real

fun disputed :: "verification_result \<Rightarrow> bool" where
  "disputed (DisputedClaim c ev conf) = True"
| "disputed (VerifiedFact c conf) = False"

fun confidence :: "verification_result \<Rightarrow> real" where
  "confidence (DisputedClaim c ev conf) = conf"
| "confidence (VerifiedFact c conf) = conf"

definition verify_claim ::
  "(string \<Rightarrow> py_exception + evidence list) \<Rightarrow> string \<Rightarrow> source_ref list
     \<Rightarrow> py_exception + verification_result" where
  "verify_claim search_contradictions claim sources =
     (case search_contradictions claim of
        Inl e \<Rightarrow> Inl e
      | Inr counter_evidence \<Rightarrow>
          if counter_evidence \<noteq> [] then Inr (DisputedClaim claim counter_evidence (4 / 10))
          else Inr (VerifiedFact claim (9 / 10)))"

text \<open>
  The outcome the specification words for a claim without counter-evidence (section 4.6):
  promoted to the high band when the claim has a corroborating source, confidence left
  as it was otherwise. It is stated here only to be compared with \<open>verify_claim\<close>.
\<close>

definition spec_confidence_after :: "real \<Rightarrow> source_ref list \<Rightarrow> evidence list \<Rightarrow> real" where
  "spec_confidence_after pre sources counter_evidence =
     (if counter_evidence \<noteq> [] then 4 / 10
      else if sources \<noteq> [] then 9 / 10
      else pre)"

section \<open>Investment scoring (README, "Investment Opportunity Scoring")\<close>

text \<open>
  \<^verbatim>\<open>
  Investment Score =
      (Claim Confidence x 25) + (Market Impact x 25) + (Timing Window x 25) + (Competition Gap x 25)
  \<close>
\<close>

definition investment_score :: "real \<Rightarrow> real \<Rightarrow> real \<Rightarrow> real \<Rightarrow> real" where
  "investment_score cc mi tw cg = cc * 25 + mi * 25 + tw * 25 + cg * 25"

record opportunity_factors =
  claim_confidence :: "real option"
  market_impact :: "real option"
  timing_window :: "real option"
  competition_gap :: "real option"

text \<open>
  Modelled from the spec: the synthesizer that applies the formula to a whitespace
  opportunity (backend/agents/synthesizer.py) is not among the sources. Section 4.6: all
  four factors are supplied by the synthesis inputs, and "a missing factor is treated as
  0, never as an error".
\<close>

definition factor_value :: "real option \<Rightarrow> real" where
  "factor_value x = (case x of None \<Rightarrow> 0 | Some v \<Rightarrow> v)"

definition score_opportunity :: "opportunity_factors \<Rightarrow> real" where
  "score_opportunity f =
     investment_score (factor_value (claim_confidence f)) (factor_value (market_impact f))
       (factor_value (timing_window f)) (factor_value (competition_gap f))"

definition normalized :: "real option \<Rightarrow> bool" where
  "normalized x = (case x of None \<Rightarrow> True | Some v \<Rightarrow> 0 \<le> v \<and> v \<le> 1)"

definition factors_normalized :: "opportunity_factors \<Rightarrow> bool" where
  "factors_normalized f =
     (normalized (claim_confidence f) \<and> normalized (market_impact f)
      \<and> normalized (timing_window f) \<and> normalized (competition_gap f))"

section \<open>The home page (frontend/app/page.tsx)\<close>

text \<open>
  A JavaScript string is a sequence of UTF-16 code units. \<open>String.prototype.trim\<close>
  removes the ECMAScript WhiteSpace and LineTerminator code points from both ends; all of
  them lie in the basic plane, so each is one code unit.
\<close>

type_synonym js_string = "16 word list"

definition js_of :: "string \<Rightarrow> js_string" where
  "js_of s = map (\<lambda>c. of_nat (of_char c)) s"

definition js_whitespace :: "16 word \<Rightarrow> bool" where
  "js_whitespace c =
     (c = 0x0009 \<or> c = 0x000A \<or> c = 0x000B \<or> c = 0x000C \<or> c = 0x000D \<or> c = 0x0020
      \<or> c = 0x00A0 \<or> c = 0x1680 \<or> (0x2000 \<le> c \<and> c \<le> 0x200A) \<or> c = 0x2028
      \<or> c = 0x2029 \<or> c = 0x202F \<or> c = 0x205F \<or> c = 0x3000 \<or> c = 0xFEFF)"

definition trim :: "js_string \<Rightarrow> js_string" where
  "trim s = rev (dropWhile js_whitespace (rev (dropWhile js_whitespace s)))"

text \<open>
  The request body is the \<open>ResearchQuery\<close> of the backend (ARCHITECTURE.md, "Type
  Safety"): query, optional domain, geographic scope, time range and recursion depth.
  The text type is a parameter: UTF-16 in the browser, a Python string in the backend.
\<close>

record 't research_query =
  query :: 't
  domain :: "'t option"
  geographic_scope :: "string list"
  time_range_years :: int
  max_recursion_depth :: int

record home_state =
  isResearching :: bool
  sessionId :: "js_string option"
  query_input :: js_string

datatype home_effect =
    PreventDefault
  | Fetch "js_string research_query"
  | ConsoleError
  | Alert string

text \<open>
  What the backend call can do, as the handler sees it: \<open>fetch\<close> rejects, or resolves
  with a status that is not ok, or resolves ok with a body that \<open>response.json()\<close>
  rejects or parses. A body that parses to \<open>null\<close> has no properties: reading
  \<open>data.session_id\<close> throws a TypeError inside the \<open>try\<close> block. Any other parsed
  body has the property or lacks it, and then \<open>data.session_id\<close> is \<open>undefined\<close>; the
  state holds \<open>string | null\<close>, so a session id is taken to be a string.
\<close>

datatype start_outcome =
    FetchRejected
  | HttpNotOk nat
  | JsonRejected
  | JsonNull
  | JsonData "js_string option"

definition research_request :: "js_string \<Rightarrow> js_string research_query" where
  "research_request q =
     \<lparr>query = q, domain = None, geographic_scope = [''US'', ''EU'', ''CN'', ''JP''],
      time_range_years = 5, max_recursion_depth = 4\<rparr>"

definition handleStartResearch ::
  "(js_string research_query \<Rightarrow> start_outcome) \<Rightarrow> home_state \<Rightarrow> home_state \<times> home_effect list" where
  "handleStartResearch backend st =
     (if trim (query_input st) = [] then (st, [PreventDefault])
      else
        (let body = research_request (query_input st) in
         case backend body of
           JsonData sid \<Rightarrow>
             (st\<lparr>sessionId := sid, isResearching := True\<rparr>, [PreventDefault, Fetch body])
         | HttpNotOk code \<Rightarrow>
             (st, [PreventDefault, Fetch body, ConsoleError,
                   Alert ''Failed to start research. Please check that backend is running on http://localhost:8000''])
         | JsonRejected \<Rightarrow>
             (st, [PreventDefault, Fetch body, ConsoleError,
                   Alert ''Cannot connect to backend. Please start the backend server: python main.py''])
         | JsonNull \<Rightarrow>
             (st, [PreventDefault, Fetch body, ConsoleError,
                   Alert ''Cannot connect to backend. Please start the backend server: python main.py''])
         | FetchRejected \<Rightarrow>
             (st, [PreventDefault, Fetch body, ConsoleError,
                   Alert ''Cannot connect to backend. Please start the backend server: python main.py''])))"

fun is_fetch :: "home_effect \<Rightarrow> bool" where
  "is_fetch (Fetch b) = True"
| "is_fetch e = False"

section \<open>The citation graph (components/CitationGraph.tsx)\<close>

text \<open>
  The effect that builds the graph draws from \<open>Math.random()\<close>. The draws are a
  parameter of the model: \<open>rnd k\<close> is the value of the \<open>k\<close>-th call, a double read as
  the real number it denotes. The arithmetic on a draw is double arithmetic: a product
  or a sum is the exact one rounded to a double, and the rounding \<open>fl\<close> is a parameter
  too, so that nothing proved here depends on how a product rounds. \<open>Math.floor\<close> of a
  double is exact. Nothing is assumed about the values: where an index computed from a
  draw falls outside the node array, \<open>nodes[targetIdx]\<close> is \<open>undefined\<close> and reading
  its \<open>id\<close> throws a TypeError.
\<close>

record patent =
  patent_id :: js_string
  title :: js_string
  assignee :: "js_string option"
  url :: "js_string option"
  citing_patents :: "js_string list option"
  cited_patents :: "js_string list option"

record node =
  node_id :: js_string
  node_title :: js_string
  node_assignee :: js_string
  node_url :: js_string
  connections :: real

record link =
  source :: js_string
  target :: js_string

datatype js_error = TypeError

definition or_default :: "js_string option \<Rightarrow> js_string \<Rightarrow> js_string" where
  "or_default x d = (case x of None \<Rightarrow> d | Some s \<Rightarrow> if s = [] then d else s)"

definition length_or_zero :: "js_string list option \<Rightarrow> nat" where
  "length_or_zero x = (case x of None \<Rightarrow> 0 | Some xs \<Rightarrow> length xs)"

definition make_node :: "(real \<Rightarrow> real) \<Rightarrow> patent \<Rightarrow> real \<Rightarrow> node" where
  "make_node fl p r =
     \<lparr>node_id = patent_id p,
      node_title = take 50 (title p) @ (if length (title p) > 50 then js_of ''...'' else []),
      node_assignee = or_default (assignee p) (js_of ''Unknown''),
      node_url = or_default (url p) [],
      connections = fl (fl (real (length_or_zero (citing_patents p))
                              + real (length_or_zero (cited_patents p))) + fl (r * 5))\<rparr>"

definition graph_nodes :: "(real \<Rightarrow> real) \<Rightarrow> (nat \<Rightarrow> real) \<Rightarrow> patent list \<Rightarrow> node list" where
  "graph_nodes fl rnd patents =
     map (\<lambda>(i, p). make_node fl p (rnd i)) (enumerate 0 (take 30 patents))"

text \<open>
  A link object holds the two patent ids and nothing else. To say which two positions
  of the node array a link was made from, every \<open>links.push\<close> is kept together with
  the pair \<open>(i, targetIdx)\<close> of the indices it read; the \<open>links\<close> array is the list of
  the objects pushed.
\<close>

type_synonym push = "(nat \<times> nat) \<times> link"

text \<open>
  The inner loop \<open>for (j = 0; j < numConnections; j++)\<close> for the node at index \<open>i\<close>:
  \<open>k\<close> iterations remain, \<open>c\<close> counts the draws made so far.
\<close>

fun connect_node ::
  "(real \<Rightarrow> real) \<Rightarrow> (nat \<Rightarrow> real) \<Rightarrow> node list \<Rightarrow> nat \<Rightarrow> nat \<Rightarrow> nat \<Rightarrow> push list
     \<Rightarrow> js_error + (nat \<times> push list)" where
  "connect_node fl rnd nodes i 0 c pushed = Inr (c, pushed)"
| "connect_node fl rnd nodes i (Suc k) c pushed =
     (let targetIdx = \<lfloor>fl (rnd c * real (length nodes))\<rfloor> in
      if targetIdx \<noteq> int i then
        (if 0 \<le> targetIdx \<and> targetIdx < int (length nodes) then
           connect_node fl rnd nodes i k (c + 1)
             (pushed @ [((i, nat targetIdx),
                         \<lparr>source = node_id (nodes ! i), target = node_id (nodes ! nat targetIdx)\<rparr>)])
         else Inl TypeError)
      else connect_node fl rnd nodes i k (c + 1) pushed)"

text \<open>
  The outer loop \<open>for (i = 0; i < nodes.length; i++)\<close>: \<open>m\<close> nodes remain, so
  \<open>i + m = nodes.length\<close> at every call.
\<close>

fun connect_from ::
  "(real \<Rightarrow> real) \<Rightarrow> (nat \<Rightarrow> real) \<Rightarrow> node list \<Rightarrow> nat \<Rightarrow> nat \<Rightarrow> nat \<Rightarrow> push list
     \<Rightarrow> js_error + push list" where
  "connect_from fl rnd nodes 0 i c pushed = Inr pushed"
| "connect_from fl rnd nodes (Suc m) i c pushed =
     (let numConnections = \<lfloor>fl (rnd c * 3)\<rfloor> in
      case connect_node fl rnd nodes i (nat numConnections) (c + 1) pushed of
        Inl e \<Rightarrow> Inl e
      | Inr (c', pushed') \<Rightarrow> connect_from fl rnd nodes m (i + 1) c' pushed')"

definition graph_pushes :: "(real \<Rightarrow> real) \<Rightarrow> (nat \<Rightarrow> real) \<Rightarrow> node list \<Rightarrow> js_error + push list" where
  "graph_pushes fl rnd nodes = connect_from fl rnd nodes (length nodes) 0 (length nodes) []"

definition graph_links :: "(real \<Rightarrow> real) \<Rightarrow> (nat \<Rightarrow> real) \<Rightarrow> node list \<Rightarrow> js_error + link list" where
  "graph_links fl rnd nodes =
     (case graph_pushes fl rnd nodes of Inl e \<Rightarrow> Inl e | Inr pushed \<Rightarrow> Inr (map snd pushed))"

text \<open>
  The effect as a whole, for a mounted component: nothing is built when \<open>patents\<close> is
  missing or empty; otherwise the nodes are made first (one draw each), then the links.
\<close>

definition citation_graph ::
  "(real \<Rightarrow> real) \<Rightarrow> (nat \<Rightarrow> real) \<Rightarrow> patent list option
     \<Rightarrow> js_error + (node list \<times> link list) option" where
  "citation_graph fl rnd patents =
     (case patents of
        None \<Rightarrow> Inr None
      | Some ps \<Rightarrow>
          if ps = [] then Inr None
          else
            (let nodes = graph_nodes fl rnd ps in
             case graph_links fl rnd nodes of
               Inl e \<Rightarrow> Inl e
             | Inr links \<Rightarrow> Inr (Some (nodes, links))))"

text \<open>
  What is expected of a push: its two indices lie in the node array and differ, and
  the object pushed holds the ids of the two nodes at those indices.
\<close>

definition proper_push :: "node list \<Rightarrow> push \<Rightarrow> bool" where
  "proper_push nodes p =
     (fst (fst p) < length nodes \<and> snd (fst p) < length nodes \<and> snd (fst p) \<noteq> fst (fst p)
      \<and> snd p = \<lparr>source = node_id (nodes ! fst (fst p)), target = node_id (nodes ! snd (fst p))\<rparr>)"

text \<open>
  The simulation resolves the two ends of a link by id
  (\<open>d3.forceLink(links).id(d => d.id)\<close>): whatever lookup \<open>by_id\<close> the library makes
  from an id to a node of the array, the ends of a link are what it finds for the two
  ids the link holds.
\<close>

definition link_ends :: "(node list \<Rightarrow> js_string \<Rightarrow> 'n) \<Rightarrow> node list \<Rightarrow> link \<Rightarrow> 'n \<times> 'n" where
  "link_ends by_id nodes l = (by_id nodes (source l), by_id nodes (target l))"

section \<open>Agents and graceful degradation (ARCHITECTURE.md, "Error Handling Strategy")\<close>

text \<open>
  The agent identifiers are the keys of \<open>AGENT_INFO\<close> in
  components/ResearchDashboard.tsx, the five agent roles of the README.
\<close>

datatype agent_kind = Patent_scout | Market_analyst | Tech_trend | Verifier | Synthesizer

fun agent_id :: "agent_kind \<Rightarrow> string" where
  "agent_id Patent_scout = ''patent_scout''"
| "agent_id Market_analyst = ''market_analyst''"
| "agent_id Tech_trend = ''tech_trend''"
| "agent_id Verifier = ''verifier''"
| "agent_id Synthesizer = ''synthesizer''"

definition AGENT_INFO :: "agent_kind list" where
  "AGENT_INFO = [Patent_scout, Market_analyst, Tech_trend, Verifier, Synthesizer]"

text \<open>
  What awaiting \<open>agent.execute(query)\<close> can do: return a result, raise an exception of
  class \<open>Exception\<close> (a timeout, \<open>asyncio.TimeoutError\<close>, is one of them), or raise one
  that derives from \<open>BaseException\<close> only. Of the last kind are
  \<open>asyncio.CancelledError\<close> (since Python 3.8; the README asks for Python 3.11),
  \<open>KeyboardInterrupt\<close> and \<open>SystemExit\<close>.
\<close>

datatype agent_error = AgentError string | AgentTimeout

datatype base_exception = CancelledError | KeyboardInterrupt | SystemExit

datatype 'a outcome = Returns 'a | Raises agent_error | Escapes base_exception

fun error_text :: "agent_error \<Rightarrow> string" where
  "error_text (AgentError msg) = msg"
| "error_text AgentTimeout = []"

fun base_exception_name :: "base_exception \<Rightarrow> string" where
  "base_exception_name CancelledError = ''CancelledError''"
| "base_exception_name KeyboardInterrupt = ''KeyboardInterrupt''"
| "base_exception_name SystemExit = ''SystemExit''"

text \<open>
  Modelled from the spec: the agents (backend/agents) are not among the sources. Section
  4.1: a result is a mapping of agent-specific fields plus a count; here the items a
  research agent found, the claims the verifier has judged, and the opportunities and
  the summary the synthesizer proposes.
\<close>

record agent_result =
  items :: "string list"
  verified :: "verification_result list"
  opportunities :: "opportunity_factors list"
  summary :: string
  reported_count :: nat

definition empty_result :: agent_result where
  "empty_result =
     \<lparr>items = [], verified = [], opportunities = [], summary = [], reported_count = 0\<rparr>"

text \<open>
  \<^verbatim>\<open>
  async def _run_agent(self, agent, session_id, query):
      try:
          result = await agent.execute(query)
          return result
      except Exception as e:
          logger.error(f"{agent.name} failed: {e}")
          # Graceful degradation - return empty instead of crash
          return {}
  \<close>
  The agent is its name and its \<open>execute\<close>; the logger is the second component of
  what is returned, and \<open>error_text\<close> is the exception as the log line prints it. The
  empty dictionary is the result with every field empty and no count. \<open>except
  Exception\<close> does not catch what derives from \<open>BaseException\<close> only: such an
  exception leaves \<open>_run_agent\<close>, and nothing is logged.
\<close>

definition run_agent ::
  "string \<times> ('q \<Rightarrow> agent_result outcome) \<Rightarrow> string \<Rightarrow> 'q
     \<Rightarrow> base_exception + (agent_result \<times> string list)" where
  "run_agent agent session_id q =
     (case snd agent q of
        Returns result \<Rightarrow> Inr (result, [])
      | Raises e \<Rightarrow> Inr (empty_result, [fst agent @ '' failed: '' @ error_text e])
      | Escapes b \<Rightarrow> Inl b)"

section \<open>The session state machine (specification, sections 3 and 4.3)\<close>

text \<open>
  Modelled from the spec: the backend that owns the session (backend/orchestrator.py,
  backend/core/state_manager.py, backend/main.py) is not among the sources; only its
  client, the dashboard, is. The definitions of this section and of the next three
  follow sections 3, 4 and 6 of the specification.
\<close>

datatype phase =
  Queued | Patent_search | Market_analysis | Tech_trends | Verification | Synthesis
  | Completed | Failed

fun phase_rank :: "phase \<Rightarrow> nat" where
  "phase_rank Queued = 0"
| "phase_rank Patent_search = 1"
| "phase_rank Market_analysis = 2"
| "phase_rank Tech_trends = 3"
| "phase_rank Verification = 4"
| "phase_rank Synthesis = 5"
| "phase_rank Completed = 6"
| "phase_rank Failed = 7"

fun phase_name :: "phase \<Rightarrow> string" where
  "phase_name Queued = ''queued''"
| "phase_name Patent_search = ''patent_search''"
| "phase_name Market_analysis = ''market_analysis''"
| "phase_name Tech_trends = ''tech_trends''"
| "phase_name Verification = ''verification''"
| "phase_name Synthesis = ''synthesis''"
| "phase_name Completed = ''completed''"
| "phase_name Failed = ''failed''"

definition terminal :: "phase \<Rightarrow> bool" where
  "terminal p = (p = Completed \<or> p = Failed)"

text \<open>
  Section 4.3: a requested transition is legal when it is forward along the defined
  order, or to \<open>failed\<close>, and \<open>failed\<close> is reachable from the non-terminal states.
\<close>

definition legal_transition :: "phase \<Rightarrow> phase \<Rightarrow> bool" where
  "legal_transition p q =
     (\<not> terminal p \<and> (q = Failed \<or> phase_rank p < phase_rank q))"

datatype run_status = St_idle | St_running | St_completed | St_error

record agent_status =
  status :: run_status
  current_task :: "string option"
  progress :: nat
  result_count :: nat

record finding =
  origin :: agent_kind
  depth :: nat
  content :: string

record report =
  executive_summary :: string
  whitespace_opportunities :: "(opportunity_factors \<times> real) list"
  verification_summary :: "verification_result list"
  total_sources_analyzed :: nat

record session =
  phase :: phase
  agent_statuses :: "string \<rightharpoonup> agent_status"
  findings :: "finding list"
  sources_analyzed :: nat
  error :: "string option"
  started_at :: nat
  final_report :: "report option"

datatype fatal = StateViolation phase phase | ExpanderViolation | Interrupted base_exception

fun fatal_message :: "fatal \<Rightarrow> string" where
  "fatal_message (StateViolation p q) =
     ''illegal phase transition: '' @ phase_name p @ '' to '' @ phase_name q"
| "fatal_message ExpanderViolation = ''expander returned more than the fan-out''"
| "fatal_message (Interrupted b) = ''agent call interrupted: '' @ base_exception_name b"

definition idle_status :: agent_status where
  "idle_status = \<lparr>status = St_idle, current_task = None, progress = 0, result_count = 0\<rparr>"

definition new_session :: "nat \<Rightarrow> session" where
  "new_session now =
     \<lparr>phase = Queued,
      agent_statuses = map_of (map (\<lambda>k. (agent_id k, idle_status)) AGENT_INFO),
      findings = [], sources_analyzed = 0, error = None, started_at = now,
      final_report = None\<rparr>"

definition request_transition :: "phase \<Rightarrow> session \<Rightarrow> fatal + session" where
  "request_transition q s =
     (if legal_transition (phase s) q then Inr (s\<lparr>phase := q\<rparr>)
      else Inl (StateViolation (phase s) q))"

text \<open>
  The two terminal transitions carry their payload: the report is created when the phase
  reaches \<open>completed\<close>, the error message is set when it becomes \<open>failed\<close>. An illegal
  request to fail is refused like any other: the session is left as it is.
\<close>

definition complete_session :: "report \<Rightarrow> session \<Rightarrow> fatal + session" where
  "complete_session r s =
     (case request_transition Completed s of
        Inl e \<Rightarrow> Inl e
      | Inr s' \<Rightarrow> Inr (s'\<lparr>final_report := Some r\<rparr>))"

definition fail_session :: "string \<Rightarrow> session \<Rightarrow> session" where
  "fail_session msg s =
     (case request_transition Failed s of
        Inl e \<Rightarrow> s
      | Inr s' \<Rightarrow> s'\<lparr>error := Some msg\<rparr>)"

text \<open>An agent's entry is updated in place; no entry is made for a key that has none.\<close>

definition set_agent :: "agent_kind \<Rightarrow> (agent_status \<Rightarrow> agent_status) \<Rightarrow> session \<Rightarrow> session" where
  "set_agent k f s =
     (case agent_statuses s (agent_id k) of
        None \<Rightarrow> s
      | Some a \<Rightarrow> s\<lparr>agent_statuses := (agent_statuses s)(agent_id k \<mapsto> f a)\<rparr>)"

section \<open>The recursive query expander (specification, section 4.2)\<close>

text \<open>
  Modelled from the spec: the expander is part of the backend that is not among the
  sources. Section 4.2: a pluggable policy proposes at most \<open>K\<close> candidates for a
  finding; a sub-query whose depth would exceed \<open>max_recursion_depth\<close> is rejected; so
  is a text already processed in the session, compared case-insensitively and with
  whitespace normalized.
\<close>

record sub_query =
  parent :: finding
  sq_text :: string
  sq_depth :: nat
  sq_origin :: agent_kind

definition is_space :: "char \<Rightarrow> bool" where
  "is_space c = (c \<in> set [CHR '' '', CHR 0x09, CHR 0x0A, CHR 0x0B, CHR 0x0C, CHR 0x0D])"

definition to_lower :: "char \<Rightarrow> char" where
  "to_lower c =
     (case map_of (zip ''ABCDEFGHIJKLMNOPQRSTUVWXYZ'' ''abcdefghijklmnopqrstuvwxyz'') c of
        None \<Rightarrow> c
      | Some l \<Rightarrow> l)"

text \<open>
  The comparison key of a query text, case-insensitive and whitespace-normalized: its
  words in lower case. \<open>cur\<close> is the word being read, reversed.
\<close>

fun words_from :: "string \<Rightarrow> string \<Rightarrow> string list" where
  "words_from cur [] = (if cur = [] then [] else [rev cur])"
| "words_from cur (c # cs) =
     (if is_space c then (if cur = [] then words_from [] cs else rev cur # words_from [] cs)
      else words_from (to_lower c # cur) cs)"

definition normalize :: "string \<Rightarrow> string list" where
  "normalize t = words_from [] t"

text \<open>
  The candidates that are kept: a malformed one (no word in it) is dropped silently, and
  so is one whose key was already processed or already kept.
\<close>

fun admit :: "string list list \<Rightarrow> string list \<Rightarrow> string list" where
  "admit seen [] = []"
| "admit seen (t # ts) =
     (if normalize t = [] \<or> normalize t \<in> set seen then admit seen ts
      else t # admit (normalize t # seen) ts)"

text \<open>
  The expander on one finding. \<open>policy\<close> proposes the candidates and \<open>K\<close> is the
  fan-out; a policy that returns more than \<open>K\<close> breaks its contract, which is fatal for
  the session (section 4.4). A sub-query has depth \<open>parent.depth + 1\<close> and is rejected
  when that exceeds \<open>max_recursion_depth\<close>.
\<close>

definition expand ::
  "(finding \<Rightarrow> string list) \<Rightarrow> nat \<Rightarrow> int \<Rightarrow> string list list \<Rightarrow> finding \<Rightarrow> fatal + sub_query list" where
  "expand policy K max_depth seen f =
     (let candidates = policy f in
      if length candidates > K then Inl ExpanderViolation
      else if int (depth f + 1) > max_depth then Inr []
      else Inr (map (\<lambda>t. \<lparr>parent = f, sq_text = t, sq_depth = depth f + 1, sq_origin = origin f\<rparr>)
                  (admit seen candidates)))"

fun expand_all ::
  "(finding \<Rightarrow> string list) \<Rightarrow> nat \<Rightarrow> int \<Rightarrow> string list list \<Rightarrow> finding list
     \<Rightarrow> fatal + (sub_query list \<times> string list list)" where
  "expand_all policy K max_depth seen [] = Inr ([], seen)"
| "expand_all policy K max_depth seen (f # fs) =
     (case expand policy K max_depth seen f of
        Inl e \<Rightarrow> Inl e
      | Inr subs \<Rightarrow>
          (case expand_all policy K max_depth (map (\<lambda>sq. normalize (sq_text sq)) subs @ seen) fs of
             Inl e \<Rightarrow> Inl e
           | Inr (rest, seen') \<Rightarrow> Inr (subs @ rest, seen')))"


section \<open>The orchestrator (specification, section 4.4)\<close>

text \<open>
  Modelled from the spec: backend/orchestrator.py is not among the sources; of the
  orchestrator only \<open>_run_agent\<close> is shown (ARCHITECTURE.md), and it is used here as it
  is, for every agent call. Section 4.4: the session starts in \<open>queued\<close> with every
  agent idle; each research phase transitions, runs its agent, records the outcome and
  drains the sub-queries of its group under the hard ceiling; then come verification,
  synthesis and \<open>completed\<close>; a fatal error moves the session to \<open>failed\<close>. Each
  research group has one agent, so the calls of a group are made one after the other.
  An exception that leaves \<open>_run_agent\<close> is an error thrown by a step, which is fatal
  (section 4.4, step 6).
\<close>

text \<open>
  What an agent is given besides the query text: a read-only snapshot of the findings
  and, for the synthesizer, the claims as verified.
\<close>

type_synonym agent_context = "finding list \<times> verification_result list"

text \<open>
  The external collaborators of one run (section 6): the execution function of the
  agent kinds, which receives the query text and the context; the expander's policy
  with its fan-out \<open>K\<close>; the hard ceiling on the sub-queries of a session; and, for
  the verifier, whose \<open>execute\<close> is \<open>verify_claim\<close> over the claims, the
  counter-evidence search and the extraction of claims from findings.
\<close>

record collaborators =
  execute :: "agent_kind \<Rightarrow> string \<Rightarrow> agent_context \<Rightarrow> agent_result outcome"
  policy :: "finding \<Rightarrow> string list"
  fan_out :: nat
  hard_ceiling :: nat
  contradiction_search :: "string \<Rightarrow> py_exception + evidence list"
  extract_claims :: "finding list \<Rightarrow> (string \<times> source_ref list) list"

text \<open>
  The orchestrator's own state: the session it writes, the snapshots it has pushed to
  the broadcaster (one after every mutation, oldest first), the keys of the query texts
  already taken up, the sub-queries enqueued so far, the sub-queries the ceiling still
  allows, and the log.
\<close>

record orch =
  sess :: session
  history :: "session list"
  seen :: "string list list"
  enqueued :: "sub_query list"
  budget :: nat
  logged :: "string list"

definition mutate :: "(session \<Rightarrow> session) \<Rightarrow> orch \<Rightarrow> orch" where
  "mutate f oc = oc\<lparr>sess := f (sess oc), history := history oc @ [f (sess oc)]\<rparr>"

definition start :: "collaborators \<Rightarrow> nat \<Rightarrow> string research_query \<Rightarrow> orch" where
  "start cfg now q =
     \<lparr>sess = new_session now, history = [new_session now], seen = [normalize (query q)],
      enqueued = [], budget = hard_ceiling cfg, logged = []\<rparr>"

definition transition :: "phase \<Rightarrow> orch \<Rightarrow> (fatal \<times> orch) + orch" where
  "transition q oc =
     (case request_transition q (sess oc) of
        Inl e \<Rightarrow> Inl (e, oc)
      | Inr s' \<Rightarrow> Inr (mutate (\<lambda>s. s') oc))"

text \<open>
  Modelled from the spec: of the verifier (backend/agents/verifier.py) only
  \<open>verify_claim\<close> is shown. Its \<open>execute\<close> runs \<open>verify_claim\<close> over the claims
  extracted from the findings, in order; an exception of a lookup leaves it as it
  leaves \<open>verify_claim\<close>, so a lookup that fails or times out is an error of the
  verifier (section 5).
\<close>

fun verify_all ::
  "(string \<Rightarrow> py_exception + evidence list) \<Rightarrow> (string \<times> source_ref list) list
     \<Rightarrow> py_exception + verification_result list" where
  "verify_all search [] = Inr []"
| "verify_all search ((claim, sources) # cs) =
     (case verify_claim search claim sources of
        Inl e \<Rightarrow> Inl e
      | Inr r \<Rightarrow> (case verify_all search cs of Inl e \<Rightarrow> Inl e | Inr rs \<Rightarrow> Inr (r # rs)))"

definition verifier_execute :: "collaborators \<Rightarrow> agent_context \<Rightarrow> agent_result outcome" where
  "verifier_execute cfg ctx =
     (case verify_all (contradiction_search cfg) (extract_claims cfg (fst ctx)) of
        Inl (PyException msg) \<Rightarrow> Raises (AgentError msg)
      | Inr vs \<Rightarrow> Returns (empty_result\<lparr>verified := vs, reported_count := length vs\<rparr>))"

definition agent_execute ::
  "collaborators \<Rightarrow> agent_kind \<Rightarrow> string \<Rightarrow> agent_context \<Rightarrow> agent_result outcome" where
  "agent_execute cfg k q ctx =
     (if k = Verifier then verifier_execute cfg ctx else execute cfg k q ctx)"

text \<open>
  The entry of an agent after a call: \<open>error\<close> when the call was caught raising,
  \<open>completed\<close> with the count it reported when it returned.
\<close>

definition agent_done :: "agent_result outcome \<Rightarrow> agent_status \<Rightarrow> agent_status" where
  "agent_done outcome a =
     (case outcome of
        Raises e \<Rightarrow> a\<lparr>status := St_error, current_task := None\<rparr>
      | Returns r \<Rightarrow> a\<lparr>status := St_completed, current_task := None, progress := 100,
                       result_count := result_count a + reported_count r\<rparr>
      | Escapes b \<Rightarrow> a)"

definition record_result :: "agent_kind \<Rightarrow> nat \<Rightarrow> agent_result \<Rightarrow> session \<Rightarrow> session" where
  "record_result k d result s =
     s\<lparr>findings := findings s @ map (\<lambda>c. \<lparr>origin = k, depth = d, content = c\<rparr>) (items result),
       sources_analyzed := sources_analyzed s + reported_count result\<rparr>"

text \<open>
  One agent call on a query text. The entry of the agent is set to \<open>running\<close>, the
  call goes through \<open>run_agent\<close>, and the result that comes back is taken into the
  session by \<open>absorb\<close> while the entry of the agent, and only that entry, records the
  outcome; a failing agent has contributed the empty result. An exception that
  \<open>run_agent\<close> does not catch stops the run where it is.
\<close>

definition invoke_agent ::
  "collaborators \<Rightarrow> string \<Rightarrow> agent_kind \<Rightarrow> string \<Rightarrow> verification_result list
     \<Rightarrow> (agent_result \<Rightarrow> session \<Rightarrow> session) \<Rightarrow> orch
     \<Rightarrow> (fatal \<times> orch) + (agent_result \<times> orch)" where
  "invoke_agent cfg sid k text vs absorb oc =
     (let o1 = mutate (set_agent k (\<lambda>a. a\<lparr>status := St_running, current_task := Some text\<rparr>)) oc;
          agent = (agent_id k, \<lambda>q. agent_execute cfg k q (findings (sess o1), vs));
          outcome = snd agent text
      in case run_agent agent sid text of
           Inl b \<Rightarrow> Inl (Interrupted b, o1)
         | Inr (result, lines) \<Rightarrow>
             Inr (result,
                  (mutate (\<lambda>s. absorb result (set_agent k (agent_done outcome) s)) o1)
                    \<lparr>logged := logged o1 @ lines\<rparr>))"

text \<open>
  A query text is investigated by the agent of the group at a recursion depth: what
  the agent found is recorded, and the expander is run over the findings the call has
  added; what it returns is enqueued.
\<close>

definition investigate ::
  "collaborators \<Rightarrow> string \<Rightarrow> int \<Rightarrow> agent_kind \<Rightarrow> string \<Rightarrow> nat \<Rightarrow> orch
     \<Rightarrow> (fatal \<times> orch) + (sub_query list \<times> orch)" where
  "investigate cfg sid max_depth k text d oc =
     (case invoke_agent cfg sid k text [] (record_result k d) oc of
        Inl e \<Rightarrow> Inl e
      | Inr (result, o1) \<Rightarrow>
          (let added = drop (length (findings (sess oc))) (findings (sess o1))
           in case expand_all (policy cfg) (fan_out cfg) max_depth (seen o1) added of
                Inl e \<Rightarrow> Inl (e, o1)
              | Inr (subs, seen') \<Rightarrow> Inr (subs, o1\<lparr>seen := seen', enqueued := enqueued o1 @ subs\<rparr>)))"

text \<open>
  The queue of a group is drained first in, first out. \<open>n\<close> is what is left of the
  ceiling: every sub-query processed uses one, and at zero the rest of the queue is
  discarded whatever the expander proposed.
\<close>

fun drain ::
  "collaborators \<Rightarrow> string \<Rightarrow> int \<Rightarrow> agent_kind \<Rightarrow> nat \<Rightarrow> sub_query list \<Rightarrow> orch
     \<Rightarrow> (fatal \<times> orch) + orch" where
  "drain cfg sid max_depth k 0 queue oc = Inr (oc\<lparr>budget := 0\<rparr>)"
| "drain cfg sid max_depth k (Suc n) [] oc = Inr (oc\<lparr>budget := Suc n\<rparr>)"
| "drain cfg sid max_depth k (Suc n) (sq # queue) oc =
     (case investigate cfg sid max_depth k (sq_text sq) (sq_depth sq) oc of
        Inl e \<Rightarrow> Inl e
      | Inr (subs, oc') \<Rightarrow> drain cfg sid max_depth k n (queue @ subs) oc')"

definition run_group ::
  "collaborators \<Rightarrow> string \<Rightarrow> string research_query \<Rightarrow> phase \<Rightarrow> agent_kind \<Rightarrow> orch
     \<Rightarrow> (fatal \<times> orch) + orch" where
  "run_group cfg sid q ph k oc =
     (case transition ph oc of
        Inl e \<Rightarrow> Inl e
      | Inr o1 \<Rightarrow>
          (case investigate cfg sid (max_recursion_depth q) k (query q) 0 o1 of
             Inl e \<Rightarrow> Inl e
           | Inr (subs, o2) \<Rightarrow> drain cfg sid (max_recursion_depth q) k (budget o2) subs o2))"

text \<open>
  Verification is one call of the verifier on the query; the claims it has judged go
  on to synthesis, none when the call failed. Its result adds nothing to the session.
\<close>

definition verification_step ::
  "collaborators \<Rightarrow> string \<Rightarrow> string research_query \<Rightarrow> orch
     \<Rightarrow> (fatal \<times> orch) + (verification_result list \<times> orch)" where
  "verification_step cfg sid q oc =
     (case transition Verification oc of
        Inl e \<Rightarrow> Inl e
      | Inr o1 \<Rightarrow>
          (case invoke_agent cfg sid Verifier (query q) [] (\<lambda>r s. s) o1 of
             Inl e \<Rightarrow> Inl e
           | Inr (result, o2) \<Rightarrow> Inr (verified result, o2)))"

text \<open>
  Synthesis is one call of the synthesizer, which is given the verified claims. The
  report folds what it proposed, each opportunity with its score and the highest score
  first, the verified claims and the source count; when the call failed the report has
  no opportunity and an empty summary. The session is then completed.
\<close>

definition build_report :: "session \<Rightarrow> agent_result \<Rightarrow> verification_result list \<Rightarrow> report" where
  "build_report s result vs =
     \<lparr>executive_summary = summary result,
      whitespace_opportunities =
        sort_key (\<lambda>p. - snd p) (map (\<lambda>f. (f, score_opportunity f)) (opportunities result)),
      verification_summary = vs,
      total_sources_analyzed = sources_analyzed s\<rparr>"

definition synthesis_step ::
  "collaborators \<Rightarrow> string \<Rightarrow> string research_query \<Rightarrow> verification_result list \<Rightarrow> orch
     \<Rightarrow> (fatal \<times> orch) + orch" where
  "synthesis_step cfg sid q vs oc =
     (case transition Synthesis oc of
        Inl e \<Rightarrow> Inl e
      | Inr o1 \<Rightarrow>
          (case invoke_agent cfg sid Synthesizer (query q) vs (\<lambda>r s. s) o1 of
             Inl e \<Rightarrow> Inl e
           | Inr (result, o2) \<Rightarrow>
               (case complete_session (build_report (sess o2) result vs) (sess o2) of
                  Inl e \<Rightarrow> Inl (e, o2)
                | Inr s' \<Rightarrow> Inr (mutate (\<lambda>s. s') o2))))"

definition pipeline ::
  "collaborators \<Rightarrow> string \<Rightarrow> string research_query \<Rightarrow> orch \<Rightarrow> (fatal \<times> orch) + orch" where
  "pipeline cfg sid q o0 =
     (case run_group cfg sid q Patent_search Patent_scout o0 of
        Inl e \<Rightarrow> Inl e
      | Inr o1 \<Rightarrow>
     (case run_group cfg sid q Market_analysis Market_analyst o1 of
        Inl e \<Rightarrow> Inl e
      | Inr o2 \<Rightarrow>
     (case run_group cfg sid q Tech_trends Tech_trend o2 of
        Inl e \<Rightarrow> Inl e
      | Inr o3 \<Rightarrow>
     (case verification_step cfg sid q o3 of
        Inl e \<Rightarrow> Inl e
      | Inr (vs, o4) \<Rightarrow> synthesis_step cfg sid q vs o4))))"

text \<open>
  A run: the session is created in \<open>queued\<close>, the pipeline is driven to the end, and a
  fatal error on the way moves the session to \<open>failed\<close> with its message; the findings
  gathered so far stay, no report is made.
\<close>

definition run_session :: "collaborators \<Rightarrow> string \<Rightarrow> nat \<Rightarrow> string research_query \<Rightarrow> orch" where
  "run_session cfg sid now q =
     (case pipeline cfg sid q (start cfg now q) of
        Inr oc \<Rightarrow> oc
      | Inl (e, oc) \<Rightarrow> mutate (fail_session (fatal_message e)) oc)"

section \<open>The service boundary (specification, section 6)\<close>

text \<open>
  Modelled from the spec: the endpoints of backend/main.py are not among the sources.
  Section 6: \<open>get_status\<close> fails with \<open>NotFound\<close> for an unknown session;
  \<open>get_report\<close> fails with \<open>NotReady\<close> if the phase is not \<open>completed\<close>, with \<open>Failed\<close>
  if it is \<open>failed\<close>.
\<close>

datatype api_error = NotFound | NotReady | SessionFailed "string option"

definition get_status :: "(string \<rightharpoonup> session) \<Rightarrow> string \<Rightarrow> api_error + session" where
  "get_status store sid = (case store sid of None \<Rightarrow> Inl NotFound | Some s \<Rightarrow> Inr s)"

text \<open>
  A failed session is not completed either; it answers \<open>Failed\<close>, with the session's
  one error message (section 7), and every other unfinished session \<open>NotReady\<close>.
\<close>

definition get_report :: "(string \<rightharpoonup> session) \<Rightarrow> string \<Rightarrow> api_error + report" where
  "get_report store sid =
     (case store sid of
        None \<Rightarrow> Inl NotFound
      | Some s \<Rightarrow>
          if phase s = Failed then Inl (SessionFailed (error s))
          else if phase s \<noteq> Completed then Inl NotReady
          else (case final_report s of None \<Rightarrow> Inl NotReady | Some r \<Rightarrow> Inr r))"

section \<open>The dashboard's poll (components/ResearchDashboard.tsx, pollStatus)\<close>

record agent_view =
  av_status :: string
  av_task :: "string option"
  av_progress :: nat
  av_results :: nat

record session_status =
  ss_session_id :: string
  ss_phase :: string
  ss_started_at :: string
  ss_agents :: "string \<rightharpoonup> agent_view"
  ss_sources_analyzed :: nat
  ss_error :: "string option"

record 'r dashboard =
  d_status :: "session_status option"
  d_report :: "'r option"
  d_isComplete :: bool
  d_error :: "string option"
  d_polling :: bool

datatype 'a fetched = Rejected | NotOk nat | BodyRejected | Body 'a

datatype dash_request = GetStatus | GetReport

text \<open>
  One poll. The two arguments are what the status request and the report request would
  answer; the second component of the result lists the requests that were made. An
  exception inside the \<open>try\<close> block ends the poll and keeps the state set so far.
\<close>

definition pollStatus ::
  "session_status fetched \<Rightarrow> 'r fetched \<Rightarrow> 'r dashboard \<Rightarrow> 'r dashboard \<times> dash_request list" where
  "pollStatus status_response report_response d =
     (case status_response of
        Body data \<Rightarrow>
          (let d1 = d\<lparr>d_status := Some data\<rparr> in
           if ss_phase data = ''completed'' \<or> ss_phase data = ''failed'' then
             (let d2 = d1\<lparr>d_polling := False\<rparr> in
              if ss_phase data = ''completed'' then
                (case report_response of
                   Body reportData \<Rightarrow>
                     (d2\<lparr>d_report := Some reportData, d_isComplete := True\<rparr>, [GetStatus, GetReport])
                 | other \<Rightarrow> (d2, [GetStatus, GetReport]))
              else if ss_phase data = ''failed'' then
                (d2\<lparr>d_error := Some (case ss_error data of
                                        None \<Rightarrow> ''Research failed''
                                      | Some m \<Rightarrow> if m = [] then ''Research failed'' else m)\<rparr>,
                 [GetStatus])
              else (d2, [GetStatus]))
           else (d1, [GetStatus]))
      | other \<Rightarrow> (d, [GetStatus]))"

section \<open>Properties of a run\<close>

text \<open>
  The vocabulary of the theorems about the orchestrator. A run is \<open>published\<close> when the
  last snapshot it pushed is its session. \<open>grows R oc oc'\<close>: the orchestrator got from
  \<open>oc\<close> to \<open>oc'\<close> by pushing snapshots, each related by \<open>R\<close> to the one before it.
\<close>

definition published :: "orch \<Rightarrow> bool" where
  "published oc = (history oc \<noteq> [] \<and> last (history oc) = sess oc)"

definition grows :: "(session \<Rightarrow> session \<Rightarrow> bool) \<Rightarrow> orch \<Rightarrow> orch \<Rightarrow> bool" where
  "grows R oc oc' =
     (\<exists>ext. history oc' = history oc @ ext \<and> successively R (sess oc # ext)
            \<and> sess oc' = last (sess oc # ext))"

text \<open>
  What a relation between a session and its successor has to admit to hold along every
  run: the status updates of the agents in \<open>A\<close> (with or without a result recorded),
  the transitions to a phase that is not terminal, the completion, and the failure.
\<close>

definition respects_updates :: "agent_kind set \<Rightarrow> (session \<Rightarrow> session \<Rightarrow> bool) \<Rightarrow> bool" where
  "respects_updates A R =
     (\<forall>k \<in> A. \<forall>s g. R s (set_agent k g s) \<and> (\<forall>d r. R s (record_result k d r (set_agent k g s))))"

definition respects_transitions :: "(session \<Rightarrow> session \<Rightarrow> bool) \<Rightarrow> bool" where
  "respects_transitions R = (\<forall>s q s'. \<not> terminal q \<and> request_transition q s = Inr s' \<longrightarrow> R s s')"

definition respects_completion :: "(session \<Rightarrow> session \<Rightarrow> bool) \<Rightarrow> bool" where
  "respects_completion R = (\<forall>s r s'. complete_session r s = Inr s' \<longrightarrow> R s s')"

definition respects_failure :: "(session \<Rightarrow> session \<Rightarrow> bool) \<Rightarrow> bool" where
  "respects_failure R = (\<forall>s m. R s (fail_session m s))"

text \<open>The relations and predicates the claims are stated with.\<close>

definition same_agents :: "session \<Rightarrow> session \<Rightarrow> bool" where
  "same_agents s s' = (dom (agent_statuses s') = dom (agent_statuses s))"

definition phase_step :: "session \<Rightarrow> session \<Rightarrow> bool" where
  "phase_step s s' = (phase s' = phase s \<or> legal_transition (phase s) (phase s'))"

definition phases_observed :: "orch \<Rightarrow> phase list" where
  "phases_observed oc = remdups_adj (map phase (history oc))"

definition settled :: "session \<Rightarrow> bool" where
  "settled s =
     ((final_report s \<noteq> None) = (phase s = Completed) \<and> (error s \<noteq> None) = (phase s = Failed))"

definition same_phase :: "session \<Rightarrow> session \<Rightarrow> bool" where
  "same_phase s s' = (phase s' = phase s)"

definition stays_open :: "session \<Rightarrow> session \<Rightarrow> bool" where
  "stays_open s s' = (\<not> terminal (phase s) \<longrightarrow> \<not> terminal (phase s'))"

definition within_depth :: "int \<Rightarrow> sub_query \<Rightarrow> bool" where
  "within_depth max_depth sq =
     (sq_depth sq = depth (parent sq) + 1 \<and> int (sq_depth sq) \<le> max_depth)"

definition enqueues :: "int \<Rightarrow> orch \<Rightarrow> orch \<Rightarrow> bool" where
  "enqueues max_depth oc oc' =
     (\<exists>subs. enqueued oc' = enqueued oc @ subs \<and> list_all (within_depth max_depth) subs)"

definition within_fan_out :: "collaborators \<Rightarrow> bool" where
  "within_fan_out cfg = (\<forall>f. length (policy cfg f) \<le> fan_out cfg)"

text \<open>
  No agent of the run is interrupted: no call raises an exception outside \<open>Exception\<close>.
\<close>

definition never_interrupted :: "collaborators \<Rightarrow> bool" where
  "never_interrupted cfg = (\<forall>k t ctx b. execute cfg k t ctx \<noteq> Escapes b)"

fun outcome_status :: "'a outcome \<Rightarrow> run_status" where
  "outcome_status (Returns r) = St_completed"
| "outcome_status (Raises e) = St_error"
| "outcome_status (Escapes b) = St_running"

definition status_of :: "session \<Rightarrow> agent_kind \<Rightarrow> run_status option" where
  "status_of s k = map_option status (agent_statuses s (agent_id k))"

definition keeps_agent :: "agent_kind \<Rightarrow> session \<Rightarrow> session \<Rightarrow> bool" where
  "keeps_agent k s s' = (agent_statuses s' (agent_id k) = agent_statuses s (agent_id k))"

section \<open>Example inputs\<close>

text \<open>
  Collaborators for concrete runs: a research agent returns two findings per query and
  the synthesizer one opportunity and a summary, except that the agent named as
  failing times out on every call; the verifier, when it is the one named, fails in
  its lookup. The expander's policy proposes one follow-up per finding; no claim has
  counter-evidence.
\<close>

definition example_collaborators :: "agent_kind option \<Rightarrow> nat \<Rightarrow> collaborators" where
  "example_collaborators failing K =
     \<lparr>execute = (\<lambda>k t ctx. if Some k = failing then Raises AgentTimeout
                            else if k = Synthesizer then
                              Returns \<lparr>items = [], verified = [],
                                       opportunities =
                                         [\<lparr>claim_confidence = Some (9 / 10), market_impact = Some (1 / 2),
                                           timing_window = None, competition_gap = Some 1\<rparr>],
                                       summary = ''summary'', reported_count = 1\<rparr>
                            else Returns \<lparr>items = [t @ '' A'', t @ '' B''], verified = [],
                                          opportunities = [], summary = [], reported_count = 2\<rparr>),
      policy = (\<lambda>f. [content f @ '' more'']),
      fan_out = K,
      hard_ceiling = 10,
      contradiction_search = (\<lambda>c. if failing = Some Verifier then Inl (PyException ''lookup failed'')
                                   else Inr []),
      extract_claims = (\<lambda>fs. (''the field is open'', []) # map (\<lambda>f. (content f, [])) fs)\<rparr>"

text \<open>The same collaborators, with one agent whose call is cancelled.\<close>

definition cancelled_collaborators :: "agent_kind \<Rightarrow> collaborators" where
  "cancelled_collaborators k =
     (example_collaborators None 1)
       \<lparr>execute := (\<lambda>a t ctx. if a = k then Escapes CancelledError
                              else execute (example_collaborators None 1) a t ctx)\<rparr>"

definition example_query :: "int \<Rightarrow> string research_query" where
  "example_query d =
     \<lparr>query = ''solid-state batteries'', domain = None, geographic_scope = [''US'', ''EU''],
      time_range_years = 5, max_recursion_depth = d\<rparr>"

section \<open>Verification and scoring: theorems\<close>

text \<open>
  C1. Whenever the contradiction search finds counter-evidence for a claim, verification
  returns the claim as disputed with confidence exactly 0.4. The claim text and its
  sources are arbitrary, and no earlier confidence is an input of the verifier, so the
  outcome cannot depend on one.
\<close>

theorem verify_claim_disputed:
  assumes "search_contradictions claim = Inr counter_evidence"
    and "counter_evidence \<noteq> []"
  shows "verify_claim search_contradictions claim sources
           = Inr (DisputedClaim claim counter_evidence (4 / 10))
         \<and> disputed (DisputedClaim claim counter_evidence (4 / 10))
         \<and> confidence (DisputedClaim claim counter_evidence (4 / 10)) = 4 / 10"
  using assms by (simp add: verify_claim_def)

theorem verify_claim_disputed_witness:
  "verify_claim (\<lambda>c. Inr [''retracted in 2021'']) ''sulfide cells last 10 years'' [''paper A'']
     = Inr (DisputedClaim ''sulfide cells last 10 years'' [''retracted in 2021''] (4 / 10))
   \<and> disputed (DisputedClaim ''sulfide cells last 10 years'' [''retracted in 2021''] (4 / 10))
   \<and> confidence (DisputedClaim ''sulfide cells last 10 years'' [''retracted in 2021''] (4 / 10))
       = 4 / 10"
  by (rule verify_claim_disputed) simp_all

text \<open>
  C2, as stated, fails: a claim with no counter-evidence and no corroborating source is
  promoted to confidence 0.9 all the same, where the specification leaves its
  confidence (here 0.5) unchanged.
\<close>

theorem verify_claim_unsourced_counterexample:
  "verify_claim (\<lambda>c. Inr []) ''new electrolyte'' [] = Inr (VerifiedFact ''new electrolyte'' (9 / 10))
   \<and> \<not> disputed (VerifiedFact ''new electrolyte'' (9 / 10))
   \<and> spec_confidence_after (1 / 2) [] [] = 1 / 2
   \<and> confidence (VerifiedFact ''new electrolyte'' (9 / 10)) \<noteq> spec_confidence_after (1 / 2) [] []"
  by (simp add: verify_claim_def spec_confidence_after_def)

text \<open>
  C2, amended. A claim for which no counter-evidence is found is returned as a verified
  fact, not disputed, with confidence 0.9, whatever its sources are.
\<close>

theorem verify_claim_promoted:
  assumes "search_contradictions claim = Inr []"
  shows "verify_claim search_contradictions claim sources = Inr (VerifiedFact claim (9 / 10))
         \<and> \<not> disputed (VerifiedFact claim (9 / 10))
         \<and> confidence (VerifiedFact claim (9 / 10)) = 9 / 10"
  using assms by (simp add: verify_claim_def)

theorem verify_claim_promoted_witness:
  "verify_claim (\<lambda>c. Inr []) ''new electrolyte'' [] = Inr (VerifiedFact ''new electrolyte'' (9 / 10))
         \<and> \<not> disputed (VerifiedFact ''new electrolyte'' (9 / 10))
         \<and> confidence (VerifiedFact ''new electrolyte'' (9 / 10)) = 9 / 10"
  by (rule verify_claim_promoted) simp

lemma factor_value_bounds: "normalized x \<Longrightarrow> 0 \<le> factor_value x \<and> factor_value x \<le> 1"
  by (cases x) (simp_all add: normalized_def factor_value_def)

text \<open>
  C3. With every supplied factor in [0,1] and a missing factor counted as 0, the score is
  25 times the sum of the four factors and lies in [0,100]; four factors at 1 give 100,
  four at 0 give 0; and leaving a factor out scores strictly less than supplying it
  with a positive value \<open>x\<close>, the other three being equal. The factors are exact reals.
\<close>

theorem score_opportunity_range:
  assumes "factors_normalized f" and "0 < x"
  shows "score_opportunity f =
           25 * factor_value (claim_confidence f) + 25 * factor_value (market_impact f)
           + 25 * factor_value (timing_window f) + 25 * factor_value (competition_gap f)
         \<and> 0 \<le> score_opportunity f \<and> score_opportunity f \<le> 100
         \<and> score_opportunity \<lparr>claim_confidence = Some 1, market_impact = Some 1,
                               timing_window = Some 1, competition_gap = Some 1\<rparr> = 100
         \<and> score_opportunity \<lparr>claim_confidence = Some 0, market_impact = Some 0,
                               timing_window = Some 0, competition_gap = Some 0\<rparr> = 0
         \<and> score_opportunity (f\<lparr>claim_confidence := None\<rparr>)
             < score_opportunity (f\<lparr>claim_confidence := Some x\<rparr>)
         \<and> score_opportunity (f\<lparr>market_impact := None\<rparr>)
             < score_opportunity (f\<lparr>market_impact := Some x\<rparr>)
         \<and> score_opportunity (f\<lparr>timing_window := None\<rparr>)
             < score_opportunity (f\<lparr>timing_window := Some x\<rparr>)
         \<and> score_opportunity (f\<lparr>competition_gap := None\<rparr>)
             < score_opportunity (f\<lparr>competition_gap := Some x\<rparr>)"
proof -
  have b: "0 \<le> factor_value (claim_confidence f) \<and> factor_value (claim_confidence f) \<le> 1"
          "0 \<le> factor_value (market_impact f) \<and> factor_value (market_impact f) \<le> 1"
          "0 \<le> factor_value (timing_window f) \<and> factor_value (timing_window f) \<le> 1"
          "0 \<le> factor_value (competition_gap f) \<and> factor_value (competition_gap f) \<le> 1"
    using assms(1) by (simp_all add: factors_normalized_def factor_value_bounds)
  have eq: "score_opportunity f =
           25 * factor_value (claim_confidence f) + 25 * factor_value (market_impact f)
           + 25 * factor_value (timing_window f) + 25 * factor_value (competition_gap f)"
    by (simp add: score_opportunity_def investment_score_def)
  have range: "0 \<le> score_opportunity f \<and> score_opportunity f \<le> 100"
    using b unfolding eq by linarith
  have ends: "score_opportunity \<lparr>claim_confidence = Some 1, market_impact = Some 1,
                               timing_window = Some 1, competition_gap = Some 1\<rparr> = 100"
     "score_opportunity \<lparr>claim_confidence = Some 0, market_impact = Some 0,
                               timing_window = Some 0, competition_gap = Some 0\<rparr> = 0"
    by (simp_all add: score_opportunity_def investment_score_def factor_value_def)
  have drop: "score_opportunity (f\<lparr>claim_confidence := None\<rparr>)
             < score_opportunity (f\<lparr>claim_confidence := Some x\<rparr>)"
     "score_opportunity (f\<lparr>market_impact := None\<rparr>)
             < score_opportunity (f\<lparr>market_impact := Some x\<rparr>)"
     "score_opportunity (f\<lparr>timing_window := None\<rparr>)
             < score_opportunity (f\<lparr>timing_window := Some x\<rparr>)"
     "score_opportunity (f\<lparr>competition_gap := None\<rparr>)
             < score_opportunity (f\<lparr>competition_gap := Some x\<rparr>)"
    using assms(2) by (simp_all add: score_opportunity_def investment_score_def factor_value_def)
  show ?thesis using eq range ends drop by blast
qed

theorem score_opportunity_range_witness:
  "factors_normalized \<lparr>claim_confidence = Some (1 / 2), market_impact = None,
                       timing_window = Some 1, competition_gap = Some 0\<rparr>
   \<and> (0::real) < 1 / 4
   \<and> score_opportunity \<lparr>claim_confidence = Some (1 / 2), market_impact = None,
                         timing_window = Some 1, competition_gap = Some 0\<rparr> = 75 / 2
   \<and> score_opportunity \<lparr>claim_confidence = Some (1 / 2), market_impact = None,
                         timing_window = Some 1, competition_gap = Some 0\<rparr> \<le> 100
   \<and> score_opportunity \<lparr>claim_confidence = None, market_impact = None,
                         timing_window = Some 1, competition_gap = Some 0\<rparr>
       < score_opportunity \<lparr>claim_confidence = Some (1 / 4), market_impact = None,
                             timing_window = Some 1, competition_gap = Some 0\<rparr>"
proof -
  let ?f = "\<lparr>claim_confidence = Some (1 / 2), market_impact = None,
             timing_window = Some 1, competition_gap = Some 0\<rparr>"
  have n: "factors_normalized ?f"
    by (simp add: factors_normalized_def normalized_def)
  have x: "(0::real) < 1 / 4" by simp
  from score_opportunity_range [OF n x] n x show ?thesis
    by (simp add: factor_value_def)
qed

section \<open>The home page: theorems\<close>

lemma trim_blank:
  assumes "\<forall>c \<in> set s. js_whitespace c"
  shows "trim s = []"
proof -
  have blank: "dropWhile js_whitespace s = []"
    using assms by (simp add: dropWhile_eq_Nil_conv)
  show ?thesis unfolding trim_def blank by simp
qed

text \<open>
  C10. When the query is empty or made of whitespace only, submitting the form does
  nothing but prevent the default action: no request is sent, and the page state
  (session id, researching flag) is what it was.
\<close>

theorem blank_query_starts_nothing:
  assumes "\<forall>c \<in> set (query_input st). js_whitespace c"
  shows "handleStartResearch backend st = (st, [PreventDefault])
         \<and> filter is_fetch (snd (handleStartResearch backend st)) = []
         \<and> sessionId (fst (handleStartResearch backend st)) = sessionId st
         \<and> isResearching (fst (handleStartResearch backend st)) = isResearching st"
  using trim_blank [OF assms] by (simp add: handleStartResearch_def)

theorem blank_query_starts_nothing_witness:
  "js_whitespace 0x20 \<and> js_whitespace 0x09 \<and> js_whitespace 0x3000
   \<and> handleStartResearch (\<lambda>b. JsonData (Some (js_of ''s1'')))
         \<lparr>isResearching = False, sessionId = None, query_input = [0x20, 0x09, 0x3000]\<rparr>
       = (\<lparr>isResearching = False, sessionId = None, query_input = [0x20, 0x09, 0x3000]\<rparr>,
          [PreventDefault])"
proof -
  let ?st = "\<lparr>isResearching = False, sessionId = None, query_input = [0x20, 0x09, 0x3000]\<rparr>"
  have b: "js_whitespace 0x20 \<and> js_whitespace 0x09 \<and> js_whitespace 0x3000"
    by (simp add: js_whitespace_def)
  then have "\<forall>c \<in> set (query_input ?st). js_whitespace c" by simp
  from blank_query_starts_nothing [OF this] b show ?thesis by blast
qed

text \<open>A query with a word in it is sent as typed, with recursion depth 4.\<close>

lemma handleStartResearch_sends:
  "handleStartResearch (\<lambda>b. JsonData (Some (js_of ''s1'')))
     \<lparr>isResearching = False, sessionId = None, query_input = js_of '' lithium ''\<rparr>
   = (\<lparr>isResearching = True, sessionId = Some (js_of ''s1''), query_input = js_of '' lithium ''\<rparr>,
      [PreventDefault, Fetch (research_request (js_of '' lithium ''))])"
  by (simp add: handleStartResearch_def trim_def js_of_def js_whitespace_def)

text \<open>
  A body that parses to \<open>null\<close> ends in the \<open>catch\<close> block: the request was sent, the
  state is what it was.
\<close>

lemma handleStartResearch_null_body:
  "handleStartResearch (\<lambda>b. JsonNull)
     \<lparr>isResearching = False, sessionId = None, query_input = js_of ''lithium''\<rparr>
   = (\<lparr>isResearching = False, sessionId = None, query_input = js_of ''lithium''\<rparr>,
      [PreventDefault, Fetch (research_request (js_of ''lithium'')), ConsoleError,
       Alert ''Cannot connect to backend. Please start the backend server: python main.py''])"
  by (simp add: handleStartResearch_def trim_def js_of_def js_whitespace_def)

section \<open>The citation graph: theorems\<close>

lemma connect_node_proper:
  assumes "connect_node fl rnd nodes i k c pushed = Inr (c', pushed')"
    and "i < length nodes" and "\<forall>p \<in> set pushed. proper_push nodes p"
  shows "\<forall>p \<in> set pushed'. proper_push nodes p"
  using assms
proof (induction k arbitrary: c pushed)
  case 0
  then show ?case by simp
next
  case (Suc k)
  let ?t = "\<lfloor>fl (rnd c * real (length nodes))\<rfloor>"
  show ?case
  proof (cases "?t = int i")
    case True
    with Suc.prems have "connect_node fl rnd nodes i k (c + 1) pushed = Inr (c', pushed')"
      by simp
    from Suc.IH [OF this Suc.prems(2,3)] show ?thesis .
  next
    case False
    with Suc.prems(1) have inr: "0 \<le> ?t \<and> ?t < int (length nodes)"
      by (auto simp: Let_def split: if_splits)
    let ?p = "((i, nat ?t), \<lparr>source = node_id (nodes ! i), target = node_id (nodes ! nat ?t)\<rparr>)"
    from False inr Suc.prems(1)
    have run: "connect_node fl rnd nodes i k (c + 1) (pushed @ [?p]) = Inr (c', pushed')"
      by (simp add: Let_def)
    have "nat ?t < length nodes" using inr by linarith
    moreover have "nat ?t \<noteq> i" using inr False by linarith
    ultimately have "proper_push nodes ?p"
      using Suc.prems(2) by (simp add: proper_push_def)
    with Suc.prems(3) have "\<forall>p \<in> set (pushed @ [?p]). proper_push nodes p" by simp
    from Suc.IH [OF run Suc.prems(2) this] show ?thesis .
  qed
qed

lemma connect_from_proper:
  assumes "connect_from fl rnd nodes m i c pushed = Inr pushed'"
    and "i + m = length nodes" and "\<forall>p \<in> set pushed. proper_push nodes p"
  shows "\<forall>p \<in> set pushed'. proper_push nodes p"
  using assms
proof (induction m arbitrary: i c pushed)
  case 0
  then show ?case by simp
next
  case (Suc m)
  from Suc.prems(1) obtain c1 pushed1 where
    inner: "connect_node fl rnd nodes i (nat \<lfloor>fl (rnd c * 3)\<rfloor>) (c + 1) pushed = Inr (c1, pushed1)"
    and rest: "connect_from fl rnd nodes m (i + 1) c1 pushed1 = Inr pushed'"
    by (auto simp: Let_def split: sum.splits)
  have "i < length nodes" using Suc.prems(2) by simp
  from connect_node_proper [OF inner this Suc.prems(3)]
  have "\<forall>p \<in> set pushed1. proper_push nodes p" .
  moreover have "i + 1 + m = length nodes" using Suc.prems(2) by simp
  ultimately show ?case using Suc.IH [OF rest] by blast
qed

lemma graph_pushes_proper:
  "graph_pushes fl rnd nodes = Inr pushed \<Longrightarrow> \<forall>p \<in> set pushed. proper_push nodes p"
  unfolding graph_pushes_def by (erule connect_from_proper) simp_all

lemma length_graph_nodes: "length (graph_nodes fl rnd ps) = min (length ps) 30"
  by (simp add: graph_nodes_def)

lemma ids_graph_nodes: "map node_id (graph_nodes fl rnd ps) = map patent_id (take 30 ps)"
  unfolding graph_nodes_def
  by (simp add: make_node_def map_equality_iff nth_enumerate_eq)

lemma proper_push_ids:
  assumes "proper_push nodes p" and "distinct (map node_id nodes)"
  shows "source (snd p) \<noteq> target (snd p)"
proof -
  from assms(1) have it: "fst (fst p) < length nodes" "snd (fst p) < length nodes"
      "snd (fst p) \<noteq> fst (fst p)"
      "snd p = \<lparr>source = node_id (nodes ! fst (fst p)), target = node_id (nodes ! snd (fst p))\<rparr>"
    by (simp_all add: proper_push_def)
  from assms(2) it(1,2,3)
  have "map node_id nodes ! fst (fst p) \<noteq> map node_id nodes ! snd (fst p)"
    by (simp add: nth_eq_iff_index_eq del: nth_map)
  with it show ?thesis by simp
qed

text \<open>
  The effect completes when every product of a draw with the number of nodes, as the
  double arithmetic rounds it, is at least 0 and below that number; a TypeError is the
  only way it can fail.
\<close>

lemma connect_node_total:
  assumes "\<forall>k. 0 \<le> fl (rnd k * real (length nodes)) \<and> fl (rnd k * real (length nodes)) < real (length nodes)"
  shows "\<exists>r. connect_node fl rnd nodes i k c pushed = Inr r"
proof (induction k arbitrary: c pushed)
  case 0
  then show ?case by simp
next
  case (Suc k)
  from assms have b: "0 \<le> fl (rnd c * real (length nodes))"
    "fl (rnd c * real (length nodes)) < real_of_int (int (length nodes))" by simp_all
  from b(1) have lo: "0 \<le> \<lfloor>fl (rnd c * real (length nodes))\<rfloor>" by simp
  from b(2) have "\<lfloor>fl (rnd c * real (length nodes))\<rfloor> < int (length nodes)"
    by (simp only: floor_less_iff)
  with lo show ?case using Suc.IH by (simp add: Let_def)
qed

lemma connect_from_total:
  assumes "\<forall>k. 0 \<le> fl (rnd k * real (length nodes)) \<and> fl (rnd k * real (length nodes)) < real (length nodes)"
  shows "\<exists>pushed'. connect_from fl rnd nodes m i c pushed = Inr pushed'"
proof (induction m arbitrary: i c pushed)
  case 0
  then show ?case by simp
next
  case (Suc m)
  from connect_node_total [OF assms] obtain c1 pushed1 where
    "connect_node fl rnd nodes i (nat \<lfloor>fl (rnd c * 3)\<rfloor>) (c + 1) pushed = Inr (c1, pushed1)"
    by (metis surj_pair)
  then show ?case using Suc.IH [of "i + 1" c1 pushed1] by (simp add: Let_def)
qed

lemma citation_graph_completes:
  assumes "\<forall>k. 0 \<le> fl (rnd k * real (min (length ps) 30))
                \<and> fl (rnd k * real (min (length ps) 30)) < real (min (length ps) 30)"
  shows "\<exists>g. citation_graph fl rnd (Some ps) = Inr g"
proof -
  let ?nodes = "graph_nodes fl rnd ps"
  have "\<forall>k. 0 \<le> fl (rnd k * real (length ?nodes))
                        \<and> fl (rnd k * real (length ?nodes)) < real (length ?nodes)"
    unfolding length_graph_nodes by (rule assms)
  from connect_from_total [OF this, of "length ?nodes" 0 "length ?nodes" "[]"]
  obtain pushed where "graph_pushes fl rnd ?nodes = Inr pushed"
    unfolding graph_pushes_def by blast
  then show ?thesis by (simp add: citation_graph_def graph_links_def Let_def)
qed

text \<open>
  Two ends that hold the same id are the same node, however the ids are looked up.
\<close>

lemma same_id_same_end:
  "source l = target l \<Longrightarrow> fst (link_ends by_id nodes l) = snd (link_ends by_id nodes l)"
  by (simp add: link_ends_def)

text \<open>
  C9, as stated, fails for an array that repeats a patent id. Two patents with the id
  \<open>A\<close> are two nodes; with the draws below the loop reads target index 1 at source
  index 0, the indices differ, and the link pushed holds \<open>A\<close> at both ends: it joins
  the node named \<open>A\<close> to itself. The draws and their products are exact doubles, so
  the rounding does nothing.
\<close>

theorem citation_graph_shared_id_counterexample:
  "citation_graph (\<lambda>x. x) (\<lambda>k. if k = 2 \<or> k = 4 then 3 / 4 else 1 / 8)
     (Some [\<lparr>patent_id = js_of ''A'', title = js_of ''anode'', assignee = None, url = None,
              citing_patents = None, cited_patents = None\<rparr>,
            \<lparr>patent_id = js_of ''A'', title = js_of ''anode, again'', assignee = None, url = None,
              citing_patents = None, cited_patents = None\<rparr>])
   = Inr (Some (graph_nodes (\<lambda>x. x) (\<lambda>k. if k = 2 \<or> k = 4 then 3 / 4 else 1 / 8)
                  [\<lparr>patent_id = js_of ''A'', title = js_of ''anode'', assignee = None, url = None,
                     citing_patents = None, cited_patents = None\<rparr>,
                   \<lparr>patent_id = js_of ''A'', title = js_of ''anode, again'', assignee = None,
                     url = None, citing_patents = None, cited_patents = None\<rparr>],
                [\<lparr>source = js_of ''A'', target = js_of ''A''\<rparr>]))
   \<and> source \<lparr>source = js_of ''A'', target = js_of ''A''\<rparr>
       = target \<lparr>source = js_of ''A'', target = js_of ''A''\<rparr>"
  by (simp add: citation_graph_def graph_links_def graph_pushes_def graph_nodes_def make_node_def
        eval_nat_numeral Let_def)

text \<open>
  C9, amended. The graph has exactly min(length, 30) nodes, those of the first patents
  in order. Every link is pushed for a source index and a target index of the node
  array that differ, and holds the ids of the nodes at those two indices; so the two
  ids of a link differ whenever the ids of the first 30 patents are pairwise different.
\<close>

theorem citation_graph_nodes_and_links:
  "length (graph_nodes fl rnd ps) = min (length ps) 30
   \<and> map node_id (graph_nodes fl rnd ps) = map patent_id (take 30 ps)
   \<and> (\<forall>nodes links. citation_graph fl rnd (Some ps) = Inr (Some (nodes, links)) \<longrightarrow>
         nodes = graph_nodes fl rnd ps
         \<and> (\<exists>pushed. graph_pushes fl rnd nodes = Inr pushed \<and> links = map snd pushed
              \<and> (\<forall>p \<in> set pushed.
                    fst (fst p) < length nodes \<and> snd (fst p) < length nodes
                    \<and> snd (fst p) \<noteq> fst (fst p)
                    \<and> snd p = \<lparr>source = node_id (nodes ! fst (fst p)),
                                target = node_id (nodes ! snd (fst p))\<rparr>))
         \<and> (distinct (map patent_id (take 30 ps)) \<longrightarrow> (\<forall>l \<in> set links. source l \<noteq> target l)))"
proof (intro conjI allI impI)
  show "length (graph_nodes fl rnd ps) = min (length ps) 30" by (rule length_graph_nodes)
  show "map node_id (graph_nodes fl rnd ps) = map patent_id (take 30 ps)" by (rule ids_graph_nodes)
next
  fix nodes links
  assume g: "citation_graph fl rnd (Some ps) = Inr (Some (nodes, links))"
  then show n: "nodes = graph_nodes fl rnd ps"
    by (auto simp: citation_graph_def Let_def split: if_splits sum.splits)
  from g n have "graph_links fl rnd nodes = Inr links"
    by (auto simp: citation_graph_def Let_def split: if_splits sum.splits)
  then obtain pushed where
    p: "graph_pushes fl rnd nodes = Inr pushed" and l: "links = map snd pushed"
    by (auto simp: graph_links_def split: sum.splits)
  note proper = graph_pushes_proper [OF p]
  from p l proper
  show "\<exists>pushed. graph_pushes fl rnd nodes = Inr pushed \<and> links = map snd pushed
              \<and> (\<forall>p \<in> set pushed.
                    fst (fst p) < length nodes \<and> snd (fst p) < length nodes
                    \<and> snd (fst p) \<noteq> fst (fst p)
                    \<and> snd p = \<lparr>source = node_id (nodes ! fst (fst p)),
                                target = node_id (nodes ! snd (fst p))\<rparr>)"
    unfolding proper_push_def by blast
  assume "distinct (map patent_id (take 30 ps))"
  then have d: "distinct (map node_id nodes)" by (simp add: n ids_graph_nodes)
  show "\<forall>l \<in> set links. source l \<noteq> target l"
  proof
    fix x
    assume "x \<in> set links"
    then obtain p where "p \<in> set pushed" and x: "x = snd p" unfolding l by auto
    with proper have "proper_push nodes p" by blast
    from proper_push_ids [OF this d] x show "source x \<noteq> target x" by simp
  qed
qed

theorem citation_graph_nodes_and_links_witness:
  "citation_graph (\<lambda>x. x) (\<lambda>k. if k = 2 \<or> k = 4 then 3 / 4 else 1 / 8)
     (Some [\<lparr>patent_id = js_of ''A'', title = js_of ''anode'', assignee = None, url = None,
              citing_patents = None, cited_patents = None\<rparr>,
            \<lparr>patent_id = js_of ''B'', title = js_of ''cathode'', assignee = None, url = None,
              citing_patents = None, cited_patents = None\<rparr>])
   = Inr (Some (graph_nodes (\<lambda>x. x) (\<lambda>k. if k = 2 \<or> k = 4 then 3 / 4 else 1 / 8)
                  [\<lparr>patent_id = js_of ''A'', title = js_of ''anode'', assignee = None, url = None,
                     citing_patents = None, cited_patents = None\<rparr>,
                   \<lparr>patent_id = js_of ''B'', title = js_of ''cathode'', assignee = None, url = None,
                     citing_patents = None, cited_patents = None\<rparr>],
                [\<lparr>source = js_of ''A'', target = js_of ''B''\<rparr>]))
   \<and> graph_pushes (\<lambda>x. x) (\<lambda>k. if k = 2 \<or> k = 4 then 3 / 4 else 1 / 8)
        (graph_nodes (\<lambda>x. x) (\<lambda>k. if k = 2 \<or> k = 4 then 3 / 4 else 1 / 8)
           [\<lparr>patent_id = js_of ''A'', title = js_of ''anode'', assignee = None, url = None,
              citing_patents = None, cited_patents = None\<rparr>,
            \<lparr>patent_id = js_of ''B'', title = js_of ''cathode'', assignee = None, url = None,
              citing_patents = None, cited_patents = None\<rparr>])
       = Inr [((0, 1), \<lparr>source = js_of ''A'', target = js_of ''B''\<rparr>)]
   \<and> distinct [js_of ''A'', js_of ''B'']
   \<and> source \<lparr>source = js_of ''A'', target = js_of ''B''\<rparr>
       \<noteq> target \<lparr>source = js_of ''A'', target = js_of ''B''\<rparr>"
proof -
  let ?rnd = "\<lambda>k::nat. if k = 2 \<or> k = 4 then 3 / 4 else (1 / 8 :: real)"
  let ?fl = "\<lambda>x::real. x"
  let ?ps = "[\<lparr>patent_id = js_of ''A'', title = js_of ''anode'', assignee = None, url = None,
              citing_patents = None, cited_patents = None\<rparr>,
            \<lparr>patent_id = js_of ''B'', title = js_of ''cathode'', assignee = None, url = None,
              citing_patents = None, cited_patents = None\<rparr>]"
  have p: "graph_pushes ?fl ?rnd (graph_nodes ?fl ?rnd ?ps)
             = Inr [((0, 1), \<lparr>source = js_of ''A'', target = js_of ''B''\<rparr>)]"
    by (simp add: graph_pushes_def graph_nodes_def make_node_def eval_nat_numeral Let_def)
  then have g: "citation_graph ?fl ?rnd (Some ?ps)
           = Inr (Some (graph_nodes ?fl ?rnd ?ps, [\<lparr>source = js_of ''A'', target = js_of ''B''\<rparr>]))"
    by (simp add: citation_graph_def graph_links_def Let_def)
  have d: "distinct (map patent_id (take 30 ?ps))" by (simp add: js_of_def)
  from citation_graph_nodes_and_links [of ?fl ?rnd ?ps] g p d show ?thesis by simp
qed

section \<open>The orchestrator: how the history grows\<close>

lemma grows_refl: "grows R oc oc"
  unfolding grows_def by (rule exI [of _ "[]"]) simp

lemma successively_join:
  "xs \<noteq> [] \<Longrightarrow> successively R xs \<Longrightarrow> successively R (last xs # ys) \<Longrightarrow> successively R (xs @ ys)"
  by (cases ys) (simp_all add: successively_append_iff)

lemma grows_trans:
  assumes "grows R a b" and "grows R b c"
  shows "grows R a c"
proof -
  from assms(1) obtain e1 where
    1: "history b = history a @ e1" "successively R (sess a # e1)" "sess b = last (sess a # e1)"
    unfolding grows_def by blast
  from assms(2) obtain e2 where
    2: "history c = history b @ e2" "successively R (sess b # e2)" "sess c = last (sess b # e2)"
    unfolding grows_def by blast
  have "successively R ((sess a # e1) @ e2)"
    using 1(2,3) 2(2) by (intro successively_join) simp_all
  moreover have "sess c = last (sess a # e1 @ e2)"
    using 1(3) 2(3) by (cases e2) simp_all
  moreover have "history c = history a @ e1 @ e2" using 1(1) 2(1) by simp
  ultimately show ?thesis unfolding grows_def by (intro exI [of _ "e1 @ e2"]) simp
qed

lemma grows_mutate: "R (sess oc) (f (sess oc)) \<Longrightarrow> grows R oc (mutate f oc)"
  unfolding grows_def mutate_def by (intro exI [of _ "[f (sess oc)]"]) simp

lemma grows_same:
  "grows R a b \<Longrightarrow> sess b' = sess b \<Longrightarrow> history b' = history b \<Longrightarrow> grows R a b'"
  unfolding grows_def by simp

lemma grows_published: "published a \<Longrightarrow> grows R a b \<Longrightarrow> published b"
  unfolding grows_def published_def by (auto simp: last_append)

lemma grows_successively:
  assumes "published a" and "successively R (history a)" and "grows R a b"
  shows "successively R (history b)"
proof -
  from assms(3) obtain ext where
    e: "history b = history a @ ext" "successively R (sess a # ext)"
    unfolding grows_def by blast
  show ?thesis
    using assms(1,2) e unfolding published_def
    by (cases ext) (auto simp: successively_append_iff)
qed

lemma invoke_agent_Inr:
  assumes "invoke_agent cfg sid k t vs absorb oc = Inr (r, oc')"
  shows "\<exists>g lines. oc' =
           (mutate (\<lambda>s. absorb r (set_agent k g s))
              (mutate (set_agent k (\<lambda>a. a\<lparr>status := St_running, current_task := Some t\<rparr>)) oc))
             \<lparr>logged := lines\<rparr>"
  using assms
  by (auto simp: invoke_agent_def Let_def split: sum.splits prod.splits)

lemma invoke_agent_Inl:
  assumes "invoke_agent cfg sid k t vs absorb oc = Inl (e, oc')"
  shows "oc' = mutate (set_agent k (\<lambda>a. a\<lparr>status := St_running, current_task := Some t\<rparr>)) oc"
  using assms
  by (auto simp: invoke_agent_def Let_def split: sum.splits prod.splits)

lemma grows_invoke_agent:
  assumes "respects_updates A R" and "k \<in> A"
    and "absorb = record_result k d \<or> absorb = (\<lambda>r s. s)"
  shows "invoke_agent cfg sid k t vs absorb oc = Inr (r, oc') \<Longrightarrow> grows R oc oc'"
    and "invoke_agent cfg sid k t vs absorb oc = Inl (e, oc') \<Longrightarrow> grows R oc oc'"
proof -
  let ?o1 = "mutate (set_agent k (\<lambda>a. a\<lparr>status := St_running, current_task := Some t\<rparr>)) oc"
  have 1: "grows R oc ?o1"
    using assms(1,2) by (intro grows_mutate) (simp add: respects_updates_def)
  { assume "invoke_agent cfg sid k t vs absorb oc = Inl (e, oc')"
    from invoke_agent_Inl [OF this] 1 show "grows R oc oc'" by simp }
  { assume "invoke_agent cfg sid k t vs absorb oc = Inr (r, oc')"
    from invoke_agent_Inr [OF this] obtain g lines where
      o: "oc' = (mutate (\<lambda>s. absorb r (set_agent k g s)) ?o1)\<lparr>logged := lines\<rparr>" by blast
    have "R (sess ?o1) (absorb r (set_agent k g (sess ?o1)))"
      using assms by (auto simp: respects_updates_def)
    then have "grows R ?o1 (mutate (\<lambda>s. absorb r (set_agent k g s)) ?o1)"
      by (rule grows_mutate)
    then have "grows R ?o1 oc'" unfolding o by (rule grows_same) simp_all
    with 1 show "grows R oc oc'" by (rule grows_trans) }
qed

lemma investigate_Inr:
  assumes "investigate cfg sid md k t d oc = Inr (subs, oc')"
  obtains r o1 sn where
    "invoke_agent cfg sid k t [] (record_result k d) oc = Inr (r, o1)"
    "expand_all (policy cfg) (fan_out cfg) md (seen o1)
       (drop (length (findings (sess oc))) (findings (sess o1))) = Inr (subs, sn)"
    "oc' = o1\<lparr>seen := sn, enqueued := enqueued o1 @ subs\<rparr>"
  using assms by (auto simp: investigate_def Let_def split: sum.splits prod.splits)

lemma investigate_Inl:
  assumes "investigate cfg sid md k t d oc = Inl (e, oc')"
  shows "invoke_agent cfg sid k t [] (record_result k d) oc = Inl (e, oc')
    \<or> (\<exists>r. invoke_agent cfg sid k t [] (record_result k d) oc = Inr (r, oc'))"
  using assms by (auto simp: investigate_def Let_def split: sum.splits prod.splits)

lemma grows_investigate:
  assumes "respects_updates A R" and "k \<in> A"
  shows "investigate cfg sid md k t d oc = Inr (subs, oc') \<Longrightarrow> grows R oc oc'"
    and "investigate cfg sid md k t d oc = Inl (e, oc') \<Longrightarrow> grows R oc oc'"
proof -
  have ab: "record_result k d = record_result k d \<or> record_result k d = (\<lambda>r s. s)" by simp
  note g = grows_invoke_agent [OF assms ab]
  { assume "investigate cfg sid md k t d oc = Inr (subs, oc')"
    then obtain r o1 sn where
      i: "invoke_agent cfg sid k t [] (record_result k d) oc = Inr (r, o1)"
      and o: "oc' = o1\<lparr>seen := sn, enqueued := enqueued o1 @ subs\<rparr>"
      by (rule investigate_Inr)
    from g(1) [OF i] show "grows R oc oc'" unfolding o by (rule grows_same) simp_all }
  { assume "investigate cfg sid md k t d oc = Inl (e, oc')"
    from investigate_Inl [OF this] g show "grows R oc oc'" by blast }
qed

lemma grows_drain:
  assumes "respects_updates A R" and "k \<in> A"
  shows "drain cfg sid md k n queue oc = Inr oc' \<Longrightarrow> grows R oc oc'"
    and "drain cfg sid md k n queue oc = Inl (e, oc') \<Longrightarrow> grows R oc oc'"
proof (induction n arbitrary: queue oc)
  case 0
  { case 1 then show ?case by (auto intro: grows_same [OF grows_refl]) }
  { case 2 then show ?case by simp }
next
  case (Suc n)
  { case 1
    show ?case
    proof (cases queue)
      case Nil
      with 1 show ?thesis by (auto intro: grows_same [OF grows_refl])
    next
      case (Cons sq rest)
      with 1 obtain subs o1 where
        i: "investigate cfg sid md k (sq_text sq) (sq_depth sq) oc = Inr (subs, o1)"
        and r: "drain cfg sid md k n (rest @ subs) o1 = Inr oc'"
        by (auto split: sum.splits)
      from grows_trans [OF grows_investigate(1) [OF assms i] Suc.IH(1) [OF r]]
      show ?thesis .
    qed }
  { case 2
    show ?case
    proof (cases queue)
      case Nil
      with 2 show ?thesis by simp
    next
      case (Cons sq rest)
      show ?thesis
      proof (cases "investigate cfg sid md k (sq_text sq) (sq_depth sq) oc")
        case (Inl a)
        with 2 Cons have "a = (e, oc')" by simp
        with Inl grows_investigate(2) [OF assms] show ?thesis by blast
      next
        case (Inr b)
        then obtain subs o1 where
          i: "investigate cfg sid md k (sq_text sq) (sq_depth sq) oc = Inr (subs, o1)"
          by (cases b) simp
        with 2 Cons have r: "drain cfg sid md k n (rest @ subs) o1 = Inl (e, oc')" by simp
        from grows_trans [OF grows_investigate(1) [OF assms i] Suc.IH(2) [OF r]]
        show ?thesis .
      qed
    qed }
qed

lemma grows_transition:
  assumes "respects_transitions R" and "\<not> terminal q"
  shows "transition q oc = Inr oc' \<Longrightarrow> grows R oc oc'"
    and "transition q oc = Inl (e, oc') \<Longrightarrow> grows R oc oc'"
  using assms
  by (auto simp: transition_def respects_transitions_def grows_refl
           split: sum.splits intro!: grows_mutate)

lemma grows_run_group:
  assumes "respects_updates A R" and "k \<in> A" and "respects_transitions R" and "\<not> terminal ph"
  shows "run_group cfg sid q ph k oc = Inr oc' \<Longrightarrow> grows R oc oc'"
    and "run_group cfg sid q ph k oc = Inl (e, oc') \<Longrightarrow> grows R oc oc'"
proof -
  note tr = grows_transition [OF assms(3,4)]
  note inv = grows_investigate [OF assms(1,2)]
  note dr = grows_drain [OF assms(1,2)]
  { assume "run_group cfg sid q ph k oc = Inr oc'"
    then obtain o1 subs o2 where
      "transition ph oc = Inr o1"
      "investigate cfg sid (max_recursion_depth q) k (query q) 0 o1 = Inr (subs, o2)"
      "drain cfg sid (max_recursion_depth q) k (budget o2) subs o2 = Inr oc'"
      by (auto simp: run_group_def split: sum.splits)
    then show "grows R oc oc'"
      using tr(1) inv(1) dr(1) by (blast intro: grows_trans) }
  { assume r: "run_group cfg sid q ph k oc = Inl (e, oc')"
    show "grows R oc oc'"
    proof (cases "transition ph oc")
      case (Inl a)
      with r show ?thesis using tr(2) by (auto simp: run_group_def)
    next
      case t: (Inr o1)
      show ?thesis
      proof (cases "investigate cfg sid (max_recursion_depth q) k (query q) 0 o1")
        case (Inl a)
        with r t have "investigate cfg sid (max_recursion_depth q) k (query q) 0 o1 = Inl (e, oc')"
          by (simp add: run_group_def)
        with t show ?thesis using tr(1) inv(2) by (blast intro: grows_trans)
      next
        case (Inr b)
        then obtain subs o2 where
          i: "investigate cfg sid (max_recursion_depth q) k (query q) 0 o1 = Inr (subs, o2)"
          by (cases b) simp
        with r t have d: "drain cfg sid (max_recursion_depth q) k (budget o2) subs o2 = Inl (e, oc')"
          by (simp add: run_group_def)
        from grows_trans [OF tr(1) [OF t] grows_trans [OF inv(1) [OF i] dr(2) [OF d]]]
        show ?thesis .
      qed
    qed }
qed

lemma verification_step_Inr:
  assumes "verification_step cfg sid q oc = Inr (vs, oc')"
  obtains o1 r where
    "transition Verification oc = Inr o1"
    "invoke_agent cfg sid Verifier (query q) [] (\<lambda>r s. s) o1 = Inr (r, oc')"
    "vs = verified r"
  using assms by (auto simp: verification_step_def split: sum.splits prod.splits)

lemma verification_step_Inl:
  assumes "verification_step cfg sid q oc = Inl (e, oc')"
  shows "transition Verification oc = Inl (e, oc')
    \<or> (\<exists>o1. transition Verification oc = Inr o1
          \<and> invoke_agent cfg sid Verifier (query q) [] (\<lambda>r s. s) o1 = Inl (e, oc'))"
  using assms by (auto simp: verification_step_def split: sum.splits prod.splits)

lemma synthesis_step_Inr:
  assumes "synthesis_step cfg sid q vs oc = Inr oc'"
  obtains o1 r o2 s' where
    "transition Synthesis oc = Inr o1"
    "invoke_agent cfg sid Synthesizer (query q) vs (\<lambda>r s. s) o1 = Inr (r, o2)"
    "complete_session (build_report (sess o2) r vs) (sess o2) = Inr s'"
    "oc' = mutate (\<lambda>s. s') o2"
  using assms by (auto simp: synthesis_step_def split: sum.splits prod.splits)

lemma synthesis_step_Inl:
  assumes "synthesis_step cfg sid q vs oc = Inl (e, oc')"
  shows "transition Synthesis oc = Inl (e, oc')
    \<or> (\<exists>o1. transition Synthesis oc = Inr o1
          \<and> (invoke_agent cfg sid Synthesizer (query q) vs (\<lambda>r s. s) o1 = Inl (e, oc')
              \<or> (\<exists>r. invoke_agent cfg sid Synthesizer (query q) vs (\<lambda>r s. s) o1 = Inr (r, oc'))))"
  using assms by (auto simp: synthesis_step_def split: sum.splits prod.splits)

lemma no_contribution: "(\<lambda>r s. s) = record_result k d \<or> (\<lambda>r s. s) = (\<lambda>(r::agent_result) (s::session). s)"
  by simp

lemma grows_verification_step:
  assumes "respects_updates A R" and "Verifier \<in> A" and "respects_transitions R"
  shows "verification_step cfg sid q oc = Inr (vs, oc') \<Longrightarrow> grows R oc oc'"
    and "verification_step cfg sid q oc = Inl (e, oc') \<Longrightarrow> grows R oc oc'"
proof -
  have nt: "\<not> terminal Verification" by (simp add: terminal_def)
  note tr = grows_transition [OF assms(3) nt]
  note g = grows_invoke_agent [OF assms(1,2) no_contribution]
  { assume "verification_step cfg sid q oc = Inr (vs, oc')"
    then obtain o1 r where
      t: "transition Verification oc = Inr o1"
      and i: "invoke_agent cfg sid Verifier (query q) [] (\<lambda>r s. s) o1 = Inr (r, oc')"
      by (rule verification_step_Inr)
    from tr(1) [OF t] g(1) [OF i] show "grows R oc oc'" by (rule grows_trans) }
  { assume "verification_step cfg sid q oc = Inl (e, oc')"
    from verification_step_Inl [OF this] show "grows R oc oc'"
    proof (elim disjE exE conjE)
      assume "transition Verification oc = Inl (e, oc')"
      then show ?thesis by (rule tr(2))
    next
      fix o1
      assume t: "transition Verification oc = Inr o1"
        and i: "invoke_agent cfg sid Verifier (query q) [] (\<lambda>r s. s) o1 = Inl (e, oc')"
      from tr(1) [OF t] g(2) [OF i] show ?thesis by (rule grows_trans)
    qed }
qed

lemma grows_synthesis_step:
  assumes "respects_updates A R" and "Synthesizer \<in> A" and "respects_transitions R"
  shows "respects_completion R \<Longrightarrow> synthesis_step cfg sid q vs oc = Inr oc' \<Longrightarrow> grows R oc oc'"
    and "synthesis_step cfg sid q vs oc = Inl (e, oc') \<Longrightarrow> grows R oc oc'"
proof -
  have nt: "\<not> terminal Synthesis" by (simp add: terminal_def)
  note tr = grows_transition [OF assms(3) nt]
  note g = grows_invoke_agent [OF assms(1,2) no_contribution]
  { assume c: "respects_completion R" and sy: "synthesis_step cfg sid q vs oc = Inr oc'"
    from sy obtain o1 r o2 s' where
      t: "transition Synthesis oc = Inr o1"
      and i: "invoke_agent cfg sid Synthesizer (query q) vs (\<lambda>r s. s) o1 = Inr (r, o2)"
      and cs: "complete_session (build_report (sess o2) r vs) (sess o2) = Inr s'"
      and o: "oc' = mutate (\<lambda>s. s') o2"
      by (rule synthesis_step_Inr)
    have "grows R o2 oc'"
      unfolding o using c cs by (intro grows_mutate) (simp add: respects_completion_def)
    from grows_trans [OF tr(1) [OF t] grows_trans [OF g(1) [OF i] this]]
    show "grows R oc oc'" . }
  { assume "synthesis_step cfg sid q vs oc = Inl (e, oc')"
    from synthesis_step_Inl [OF this] show "grows R oc oc'"
    proof (elim disjE exE conjE)
      assume "transition Synthesis oc = Inl (e, oc')"
      then show ?thesis by (rule tr(2))
    next
      fix o1
      assume t: "transition Synthesis oc = Inr o1"
        and i: "invoke_agent cfg sid Synthesizer (query q) vs (\<lambda>r s. s) o1 = Inl (e, oc')"
      from tr(1) [OF t] g(2) [OF i] show ?thesis by (rule grows_trans)
    next
      fix o1 r
      assume t: "transition Synthesis oc = Inr o1"
        and i: "invoke_agent cfg sid Synthesizer (query q) vs (\<lambda>r s. s) o1 = Inr (r, oc')"
      from tr(1) [OF t] g(1) [OF i] show ?thesis by (rule grows_trans)
    qed }
qed

lemma sum_case_Inr:
  assumes "(case x of Inl e \<Rightarrow> Inl e | Inr v \<Rightarrow> f v) = Inr y"
  obtains v where "x = Inr v" and "f v = Inr y"
  using assms by (cases x) auto

lemma sum_case_Inl:
  assumes "(case x of Inl e \<Rightarrow> Inl e | Inr v \<Rightarrow> f v) = Inl y"
  shows "x = Inl y \<or> (\<exists>v. x = Inr v \<and> f v = Inl y)"
  using assms by (cases x) auto

lemma pipeline_Inr:
  assumes "pipeline cfg sid q oc = Inr oc'"
  obtains o1 o2 o3 vs o4 where
      "run_group cfg sid q Patent_search Patent_scout oc = Inr o1"
      "run_group cfg sid q Market_analysis Market_analyst o1 = Inr o2"
      "run_group cfg sid q Tech_trends Tech_trend o2 = Inr o3"
      "verification_step cfg sid q o3 = Inr (vs, o4)"
      "synthesis_step cfg sid q vs o4 = Inr oc'"
proof -
  from assms [unfolded pipeline_def] obtain o1 where
    1: "run_group cfg sid q Patent_search Patent_scout oc = Inr o1"
    and p1: "(case run_group cfg sid q Market_analysis Market_analyst o1 of
        Inl e \<Rightarrow> Inl e
      | Inr o2 \<Rightarrow>
     (case run_group cfg sid q Tech_trends Tech_trend o2 of
        Inl e \<Rightarrow> Inl e
      | Inr o3 \<Rightarrow>
     (case verification_step cfg sid q o3 of
        Inl e \<Rightarrow> Inl e
      | Inr (vs, o4) \<Rightarrow> synthesis_step cfg sid q vs o4))) = Inr oc'"
    by (rule sum_case_Inr)
  from p1 obtain o2 where
    2: "run_group cfg sid q Market_analysis Market_analyst o1 = Inr o2"
    and p2: "(case run_group cfg sid q Tech_trends Tech_trend o2 of
        Inl e \<Rightarrow> Inl e
      | Inr o3 \<Rightarrow>
     (case verification_step cfg sid q o3 of
        Inl e \<Rightarrow> Inl e
      | Inr (vs, o4) \<Rightarrow> synthesis_step cfg sid q vs o4)) = Inr oc'"
    by (rule sum_case_Inr)
  from p2 obtain o3 where
    3: "run_group cfg sid q Tech_trends Tech_trend o2 = Inr o3"
    and p3: "(case verification_step cfg sid q o3 of
        Inl e \<Rightarrow> Inl e
      | Inr (vs, o4) \<Rightarrow> synthesis_step cfg sid q vs o4) = Inr oc'"
    by (rule sum_case_Inr)
  from p3 obtain b where
    4: "verification_step cfg sid q o3 = Inr b"
    and p4: "(case b of (vs, o4) \<Rightarrow> synthesis_step cfg sid q vs o4) = Inr oc'"
    by (rule sum_case_Inr)
  obtain vs o4 where b: "b = (vs, o4)" by (cases b)
  from 1 2 3 4 p4 b that show thesis by simp
qed

lemma pipeline_Inl:
  assumes "pipeline cfg sid q oc = Inl eo"
  shows "run_group cfg sid q Patent_search Patent_scout oc = Inl eo
    \<or> (\<exists>o1. run_group cfg sid q Patent_search Patent_scout oc = Inr o1
         \<and> run_group cfg sid q Market_analysis Market_analyst o1 = Inl eo)
    \<or> (\<exists>o1 o2. run_group cfg sid q Patent_search Patent_scout oc = Inr o1
         \<and> run_group cfg sid q Market_analysis Market_analyst o1 = Inr o2
         \<and> run_group cfg sid q Tech_trends Tech_trend o2 = Inl eo)
    \<or> (\<exists>o1 o2 o3. run_group cfg sid q Patent_search Patent_scout oc = Inr o1
         \<and> run_group cfg sid q Market_analysis Market_analyst o1 = Inr o2
         \<and> run_group cfg sid q Tech_trends Tech_trend o2 = Inr o3
         \<and> verification_step cfg sid q o3 = Inl eo)
    \<or> (\<exists>o1 o2 o3 vs o4. run_group cfg sid q Patent_search Patent_scout oc = Inr o1
         \<and> run_group cfg sid q Market_analysis Market_analyst o1 = Inr o2
         \<and> run_group cfg sid q Tech_trends Tech_trend o2 = Inr o3
         \<and> verification_step cfg sid q o3 = Inr (vs, o4)
         \<and> synthesis_step cfg sid q vs o4 = Inl eo)"
proof (cases "run_group cfg sid q Patent_search Patent_scout oc")
  case (Inl a)
  with assms show ?thesis by (simp add: pipeline_def)
next
  case r1: (Inr o1)
  show ?thesis
  proof (cases "run_group cfg sid q Market_analysis Market_analyst o1")
    case (Inl a)
    with assms r1 show ?thesis by (simp add: pipeline_def)
  next
    case r2: (Inr o2)
    show ?thesis
    proof (cases "run_group cfg sid q Tech_trends Tech_trend o2")
      case (Inl a)
      with assms r1 r2 show ?thesis by (simp add: pipeline_def)
    next
      case r3: (Inr o3)
      show ?thesis
      proof (cases "verification_step cfg sid q o3")
        case (Inl a)
        with assms r1 r2 r3 show ?thesis by (simp add: pipeline_def)
      next
        case (Inr b)
        then obtain vs o4 where r4: "verification_step cfg sid q o3 = Inr (vs, o4)"
          by (cases b) simp
        with assms r1 r2 r3 show ?thesis by (simp add: pipeline_def)
      qed
    qed
  qed
qed

lemma grows_pipeline:
  assumes "respects_updates UNIV R" and "respects_transitions R"
  shows "respects_completion R \<Longrightarrow> pipeline cfg sid q oc = Inr oc' \<Longrightarrow> grows R oc oc'"
    and "pipeline cfg sid q oc = Inl (e, oc') \<Longrightarrow> grows R oc oc'"
proof -
  have nt: "\<not> terminal Patent_search" "\<not> terminal Market_analysis" "\<not> terminal Tech_trends"
    by (simp_all add: terminal_def)
  note g1 = grows_run_group [OF assms(1) UNIV_I assms(2) nt(1)]
  note g2 = grows_run_group [OF assms(1) UNIV_I assms(2) nt(2)]
  note g3 = grows_run_group [OF assms(1) UNIV_I assms(2) nt(3)]
  note v = grows_verification_step [OF assms(1) UNIV_I assms(2)]
  note s = grows_synthesis_step [OF assms(1) UNIV_I assms(2)]
  { assume c: "respects_completion R" and p: "pipeline cfg sid q oc = Inr oc'"
    from p obtain o1 o2 o3 vs o4 where
      r: "run_group cfg sid q Patent_search Patent_scout oc = Inr o1"
      "run_group cfg sid q Market_analysis Market_analyst o1 = Inr o2"
      "run_group cfg sid q Tech_trends Tech_trend o2 = Inr o3"
      "verification_step cfg sid q o3 = Inr (vs, o4)"
      "synthesis_step cfg sid q vs o4 = Inr oc'"
      by (rule pipeline_Inr)
    from grows_trans [OF g1(1) [OF r(1)] grows_trans [OF g2(1) [OF r(2)]
           grows_trans [OF g3(1) [OF r(3)] grows_trans [OF v(1) [OF r(4)] s(1) [OF c r(5)]]]]]
    show "grows R oc oc'" . }
  { assume p: "pipeline cfg sid q oc = Inl (e, oc')"
    from pipeline_Inl [OF p] show "grows R oc oc'"
    proof (elim disjE exE conjE, goal_cases)
      case 1
      then show ?case by (rule g1(2))
    next
      case (2 o1)
      from grows_trans [OF g1(1) [OF 2(1)] g2(2) [OF 2(2)]] show ?case .
    next
      case (3 o1 o2)
      from grows_trans [OF g1(1) [OF 3(1)] grows_trans [OF g2(1) [OF 3(2)] g3(2) [OF 3(3)]]]
      show ?case .
    next
      case (4 o1 o2 o3)
      from grows_trans [OF g1(1) [OF 4(1)] grows_trans [OF g2(1) [OF 4(2)]
             grows_trans [OF g3(1) [OF 4(3)] v(2) [OF 4(4)]]]]
      show ?case .
    next
      case (5 o1 o2 o3 vs o4)
      from grows_trans [OF g1(1) [OF 5(1)] grows_trans [OF g2(1) [OF 5(2)]
             grows_trans [OF g3(1) [OF 5(3)] grows_trans [OF v(1) [OF 5(4)] s(2) [OF 5(5)]]]]]
      show ?case .
    qed }
qed

lemma grows_run_session:
  assumes "respects_updates UNIV R" and "respects_transitions R"
    and "respects_completion R" and "respects_failure R"
  shows "grows R (start cfg now q) (run_session cfg sid now q)"
proof (cases "pipeline cfg sid q (start cfg now q)")
  case (Inl a)
  obtain e oc' where a: "a = (e, oc')" by (cases a)
  from Inl a have 1: "grows R (start cfg now q) oc'"
    using grows_pipeline(2) [OF assms(1,2)] by blast
  have 2: "grows R oc' (mutate (fail_session (fatal_message e)) oc')"
    using assms(4) by (intro grows_mutate) (simp add: respects_failure_def)
  have "run_session cfg sid now q = mutate (fail_session (fatal_message e)) oc'"
    using Inl a by (simp add: run_session_def)
  with grows_trans [OF 1 2] show ?thesis by simp
next
  case (Inr oc')
  then show ?thesis
    using grows_pipeline(1) [OF assms(1,2,3)] by (simp add: run_session_def)
qed

lemma history_run_session:
  assumes "respects_updates UNIV R" and "respects_transitions R"
    and "respects_completion R" and "respects_failure R"
  shows "successively R (history (run_session cfg sid now q))"
    and "hd (history (run_session cfg sid now q)) = new_session now"
    and "history (run_session cfg sid now q) \<noteq> []"
    and "last (history (run_session cfg sid now q)) = sess (run_session cfg sid now q)"
proof -
  from grows_run_session [OF assms, of cfg now q sid] obtain ext where
    e: "history (run_session cfg sid now q) = history (start cfg now q) @ ext"
       "successively R (sess (start cfg now q) # ext)"
       "sess (run_session cfg sid now q) = last (sess (start cfg now q) # ext)"
    unfolding grows_def by blast
  have h: "history (run_session cfg sid now q) = new_session now # ext"
    using e(1) by (simp add: start_def)
  show "successively R (history (run_session cfg sid now q))"
    using e(2) unfolding h by (simp add: start_def)
  show "hd (history (run_session cfg sid now q)) = new_session now"
    unfolding h by simp
  show "history (run_session cfg sid now q) \<noteq> []"
    unfolding h by simp
  show "last (history (run_session cfg sid now q)) = sess (run_session cfg sid now q)"
    using e(3) unfolding h by (simp add: start_def)
qed

lemma successively_all:
  "successively (\<lambda>s s'. P s \<longrightarrow> P s') (x # xs) \<Longrightarrow> P x \<Longrightarrow> \<forall>s \<in> set xs. P s"
proof (induction xs arbitrary: x)
  case Nil
  then show ?case by simp
next
  case (Cons y ys)
  from Cons.prems have y: "P y" and rest: "successively (\<lambda>s s'. P s \<longrightarrow> P s') (y # ys)"
    by (simp_all del: successively_cong)
  from Cons.IH [OF rest y] y show ?case by simp
qed

section \<open>The session between two snapshots\<close>

lemma set_agent_fields [simp]:
  "phase (set_agent k g s) = phase s"
  "findings (set_agent k g s) = findings s"
  "sources_analyzed (set_agent k g s) = sources_analyzed s"
  "error (set_agent k g s) = error s"
  "final_report (set_agent k g s) = final_report s"
  "started_at (set_agent k g s) = started_at s"
  by (simp_all add: set_agent_def split: option.splits)

lemma dom_set_agent [simp]: "dom (agent_statuses (set_agent k g s)) = dom (agent_statuses s)"
  by (auto simp: set_agent_def split: option.splits)

lemma record_result_fields [simp]:
  "phase (record_result k d r s) = phase s"
  "agent_statuses (record_result k d r s) = agent_statuses s"
  "error (record_result k d r s) = error s"
  "final_report (record_result k d r s) = final_report s"
  "started_at (record_result k d r s) = started_at s"
  by (simp_all add: record_result_def)

lemma request_transition_Inr:
  "request_transition q s = Inr s' \<Longrightarrow> s' = s\<lparr>phase := q\<rparr> \<and> legal_transition (phase s) q"
  by (auto simp: request_transition_def split: if_splits)

lemma complete_session_Inr:
  "complete_session r s = Inr s'
     \<Longrightarrow> s' = s\<lparr>phase := Completed, final_report := Some r\<rparr> \<and> legal_transition (phase s) Completed"
  by (auto simp: complete_session_def request_transition_def split: if_splits)

lemma fail_session_cases:
  "(legal_transition (phase s) Failed \<and> fail_session m s = s\<lparr>phase := Failed, error := Some m\<rparr>)
   \<or> (\<not> legal_transition (phase s) Failed \<and> fail_session m s = s)"
  by (auto simp: fail_session_def request_transition_def)

lemma legal_transition_rank: "legal_transition p q \<Longrightarrow> phase_rank p < phase_rank q"
  by (cases p; cases q; simp add: legal_transition_def terminal_def)

lemma same_agents_respected:
  "respects_updates UNIV same_agents" "respects_transitions same_agents"
  "respects_completion same_agents" "respects_failure same_agents"
proof -
  show "respects_updates UNIV same_agents"
    by (simp add: respects_updates_def same_agents_def)
  show "respects_transitions same_agents"
    by (auto simp: respects_transitions_def same_agents_def dest!: request_transition_Inr)
  show "respects_completion same_agents"
    by (auto simp: respects_completion_def same_agents_def dest!: complete_session_Inr)
  show "respects_failure same_agents"
    unfolding respects_failure_def same_agents_def
  proof (intro allI)
    fix s m
    from fail_session_cases [of s m]
    show "dom (agent_statuses (fail_session m s)) = dom (agent_statuses s)"
      by (elim disjE conjE) simp_all
  qed
qed

lemma dom_new_session: "dom (agent_statuses (new_session now)) = agent_id ` set AGENT_INFO"
  by (simp add: new_session_def dom_map_of_conv_image_fst image_image)

text \<open>
  C7. In every snapshot of every run, and in the session at its end, the keys of
  \<open>agent_statuses\<close> are exactly the identifiers of the five known agents, which are
  pairwise different: the entries made at session creation, none added, none removed.
\<close>

theorem agent_statuses_keys_fixed:
  "(\<forall>s \<in> set (history (run_session cfg sid now q)).
      dom (agent_statuses s) = agent_id ` set AGENT_INFO)
   \<and> dom (agent_statuses (sess (run_session cfg sid now q))) = agent_id ` set AGENT_INFO
   \<and> hd (history (run_session cfg sid now q)) = new_session now
   \<and> distinct (map agent_id AGENT_INFO)"
proof -
  let ?h = "history (run_session cfg sid now q)"
  let ?P = "\<lambda>s. dom (agent_statuses s) = agent_id ` set AGENT_INFO"
  note run = history_run_session [OF same_agents_respected, of cfg sid now q]
  have "successively (\<lambda>s s'. ?P s \<longrightarrow> ?P s') ?h"
    by (rule successively_mono [OF run(1)]) (simp add: same_agents_def)
  moreover obtain ext where h: "?h = new_session now # ext"
    using run(2,3) by (cases ?h) auto
  ultimately have "successively (\<lambda>s s'. ?P s \<longrightarrow> ?P s') (new_session now # ext)"
    by (simp only:)
  then have "\<forall>s \<in> set ext. ?P s"
    by (rule successively_all) (rule dom_new_session)
  then have all: "\<forall>s \<in> set ?h. ?P s"
    unfolding h using dom_new_session by simp
  moreover have "sess (run_session cfg sid now q) \<in> set ?h"
    using run(3,4) last_in_set by metis
  moreover have "distinct (map agent_id AGENT_INFO)"
    by (simp add: AGENT_INFO_def)
  ultimately show ?thesis using run(2) by blast
qed

theorem agent_statuses_keys_fixed_witness:
  "sess (run_session (example_collaborators (Some Market_analyst) 1) ''s1'' 0 (example_query 1))
     \<in> set (history (run_session (example_collaborators (Some Market_analyst) 1) ''s1'' 0
                       (example_query 1)))
   \<and> dom (agent_statuses
            (sess (run_session (example_collaborators (Some Market_analyst) 1) ''s1'' 0
                     (example_query 1))))
       = {''patent_scout'', ''market_analyst'', ''tech_trend'', ''verifier'', ''synthesizer''}"
proof -
  let ?r = "run_session (example_collaborators (Some Market_analyst) 1) ''s1'' 0 (example_query 1)"
  have "sess ?r \<in> set (history ?r)"
    using history_run_session(3,4) [OF same_agents_respected] last_in_set by metis
  with agent_statuses_keys_fixed [of "example_collaborators (Some Market_analyst) 1" "''s1''" 0
         "example_query 1"]
  show ?thesis by (auto simp: AGENT_INFO_def)
qed

lemma settled_respected:
  "respects_updates UNIV (\<lambda>s s'. settled s \<longrightarrow> settled s')"
  "respects_transitions (\<lambda>s s'. settled s \<longrightarrow> settled s')"
  "respects_completion (\<lambda>s s'. settled s \<longrightarrow> settled s')"
  "respects_failure (\<lambda>s s'. settled s \<longrightarrow> settled s')"
proof -
  show "respects_updates UNIV (\<lambda>s s'. settled s \<longrightarrow> settled s')"
    by (simp add: respects_updates_def settled_def)
  show "respects_transitions (\<lambda>s s'. settled s \<longrightarrow> settled s')"
    by (auto simp: respects_transitions_def settled_def legal_transition_def terminal_def
             dest!: request_transition_Inr)
  show "respects_completion (\<lambda>s s'. settled s \<longrightarrow> settled s')"
    by (auto simp: respects_completion_def settled_def legal_transition_def terminal_def
             dest!: complete_session_Inr)
  show "respects_failure (\<lambda>s s'. settled s \<longrightarrow> settled s')"
    unfolding respects_failure_def
  proof (intro allI impI)
    fix s m
    assume "settled s"
    with fail_session_cases [of s m] show "settled (fail_session m s)"
      by (elim disjE conjE) (auto simp: settled_def legal_transition_def terminal_def)
  qed
qed

lemma run_session_settled:
  "\<forall>s \<in> set (history (run_session cfg sid now q)). settled s"
proof -
  let ?h = "history (run_session cfg sid now q)"
  note run = history_run_session [OF settled_respected, of cfg sid now q]
  obtain ext where h: "?h = new_session now # ext"
    using run(2,3) by (cases ?h) auto
  have 0: "settled (new_session now)" by (simp add: settled_def new_session_def)
  from run(1) have "successively (\<lambda>s s'. settled s \<longrightarrow> settled s') (new_session now # ext)"
    unfolding h .
  then have "\<forall>s \<in> set ext. settled s"
    using 0 by (rule successively_all)
  then show ?thesis unfolding h using 0 by simp
qed

lemma phase_step_respected:
  "respects_updates UNIV phase_step" "respects_transitions phase_step"
  "respects_completion phase_step" "respects_failure phase_step"
proof -
  show "respects_updates UNIV phase_step"
    by (simp add: respects_updates_def phase_step_def)
  show "respects_transitions phase_step"
    by (auto simp: respects_transitions_def phase_step_def dest!: request_transition_Inr)
  show "respects_completion phase_step"
    by (auto simp: respects_completion_def phase_step_def dest!: complete_session_Inr)
  show "respects_failure phase_step"
    unfolding respects_failure_def
  proof (intro allI)
    fix s m
    from fail_session_cases [of s m] show "phase_step s (fail_session m s)"
      by (elim disjE conjE) (simp_all add: phase_step_def)
  qed
qed

lemma phase_step_rank:
  assumes "phase_step s s'"
  shows "phase_rank (phase s) \<le> phase_rank (phase s')"
proof -
  from assms consider "phase s' = phase s" | "legal_transition (phase s) (phase s')"
    unfolding phase_step_def by blast
  then show ?thesis
  proof cases
    case 1
    then show ?thesis by simp
  next
    case 2
    from legal_transition_rank [OF 2] show ?thesis by simp
  qed
qed

lemma run_session_sorted:
  "sorted (map (\<lambda>s. phase_rank (phase s)) (history (run_session cfg sid now q)))"
proof -
  let ?h = "history (run_session cfg sid now q)"
  have "successively phase_step ?h"
    by (rule history_run_session(1) [OF phase_step_respected])
  then have "successively (\<lambda>s s'. phase_rank (phase s) \<le> phase_rank (phase s')) ?h"
    by (rule successively_mono) (rule phase_step_rank)
  then have "sorted_wrt (\<lambda>s s'. phase_rank (phase s) \<le> phase_rank (phase s')) ?h"
    by (subst (asm) successively_conv_sorted_wrt) (auto simp: transp_def)
  then show ?thesis by (simp add: sorted_wrt_map)
qed

section \<open>The phases a run observes\<close>

lemma remdups_adj_repeat_last:
  "xs \<noteq> [] \<Longrightarrow> \<forall>y \<in> set ys. y = last xs \<Longrightarrow> remdups_adj (xs @ ys) = remdups_adj xs"
proof (induction ys arbitrary: xs)
  case Nil
  then show ?case by simp
next
  case (Cons y ys)
  have y: "y = last xs" using Cons.prems(2) by simp
  have "remdups_adj ((xs @ [y]) @ ys) = remdups_adj (xs @ [y])"
    using Cons.prems(2) y by (intro Cons.IH) simp_all
  moreover have "remdups_adj (xs @ [y]) = remdups_adj xs"
  proof -
    have xs: "xs = butlast xs @ [y]" using Cons.prems(1) y by simp
    have "remdups_adj (xs @ [y]) = remdups_adj (butlast xs @ [y, y])"
      by (subst xs) simp
    also have "\<dots> = remdups_adj (butlast xs @ [y])" by (simp add: remdups_adj_append_two)
    also have "\<dots> = remdups_adj xs" using xs by simp
    finally show ?thesis .
  qed
  ultimately show ?case by simp
qed

lemma remdups_adj_new_last:
  assumes "xs \<noteq> []" and "last xs \<noteq> y"
  shows "remdups_adj (xs @ [y]) = remdups_adj xs @ [y]"
proof -
  have xs: "xs = butlast xs @ [last xs]" using assms(1) by simp
  have "remdups_adj (xs @ [y]) = remdups_adj (butlast xs @ [last xs, y])"
    by (subst xs) simp
  also have "\<dots> = remdups_adj (butlast xs @ [last xs]) @ [y]"
    using assms(2) by (simp add: remdups_adj_append_two)
  finally show ?thesis using xs by simp
qed

lemma successively_const:
  assumes "successively (\<lambda>s s'. f s' = f s) (x # ext)"
  shows "\<forall>s \<in> set ext. f s = f x"
proof -
  have "successively (\<lambda>s s'. f s = f x \<longrightarrow> f s' = f x) (x # ext)"
    by (rule successively_mono [OF assms]) simp
  then show ?thesis by (rule successively_all) simp
qed

lemma grows_same_phase:
  assumes "published oc" and "grows same_phase oc oc'"
  shows "phase (sess oc') = phase (sess oc)"
    and "phases_observed oc' = phases_observed oc"
    and "published oc'"
proof -
  from assms(2) obtain ext where
    e: "history oc' = history oc @ ext" "successively same_phase (sess oc # ext)"
       "sess oc' = last (sess oc # ext)"
    unfolding grows_def by blast
  have "successively (\<lambda>s s'. phase s' = phase s) (sess oc # ext)"
    using e(2) unfolding same_phase_def [abs_def] .
  then have c: "\<forall>s \<in> set ext. phase s = phase (sess oc)" by (rule successively_const)
  show "phase (sess oc') = phase (sess oc)"
    using e(3) c by (cases "ext = []") simp_all
  have "map phase (history oc) \<noteq> []" "last (map phase (history oc)) = phase (sess oc)"
    using assms(1) by (simp_all add: published_def last_map)
  then have "remdups_adj (map phase (history oc) @ map phase ext) = remdups_adj (map phase (history oc))"
    using c by (intro remdups_adj_repeat_last) auto
  then show "phases_observed oc' = phases_observed oc"
    by (simp add: phases_observed_def e(1))
  show "published oc'" by (rule grows_published [OF assms])
qed

lemma same_phase_updates: "respects_updates UNIV same_phase"
  by (simp add: respects_updates_def same_phase_def)

lemma transition_phases:
  assumes "published oc" and "transition q oc = Inr oc'"
  shows "phase (sess oc') = q"
    and "phases_observed oc' = phases_observed oc @ [q]"
    and "published oc'"
    and "legal_transition (phase (sess oc)) q"
proof -
  from assms(2) obtain s' where
    r: "request_transition q (sess oc) = Inr s'" and o: "oc' = mutate (\<lambda>s. s') oc"
    by (auto simp: transition_def split: sum.splits)
  from request_transition_Inr [OF r]
  have s': "s' = (sess oc)\<lparr>phase := q\<rparr>" and l: "legal_transition (phase (sess oc)) q" by simp_all
  show "legal_transition (phase (sess oc)) q" by (rule l)
  show "phase (sess oc') = q" by (simp add: o s' mutate_def)
  show "published oc'" by (simp add: o published_def mutate_def)
  have ne: "q \<noteq> phase (sess oc)" using legal_transition_rank [OF l] by auto
  have "map phase (history oc) \<noteq> []" "last (map phase (history oc)) \<noteq> q"
    using assms(1) ne by (simp_all add: published_def last_map)
  then have "remdups_adj (map phase (history oc) @ [q]) = remdups_adj (map phase (history oc)) @ [q]"
    by (rule remdups_adj_new_last)
  then show "phases_observed oc' = phases_observed oc @ [q]"
    by (simp add: phases_observed_def o s' mutate_def)
qed

lemma run_group_phases:
  assumes "published oc" and "run_group cfg sid q ph k oc = Inr oc'"
  shows "phase (sess oc') = ph"
    and "phases_observed oc' = phases_observed oc @ [ph]"
    and "published oc'"
    and "legal_transition (phase (sess oc)) ph"
proof -
  from assms(2) obtain o1 subs o2 where
    t: "transition ph oc = Inr o1"
    and i: "investigate cfg sid (max_recursion_depth q) k (query q) 0 o1 = Inr (subs, o2)"
    and d: "drain cfg sid (max_recursion_depth q) k (budget o2) subs o2 = Inr oc'"
    by (auto simp: run_group_def split: sum.splits)
  note 1 = transition_phases [OF assms(1) t]
  have "grows same_phase o1 oc'"
    using grows_investigate(1) [OF same_phase_updates UNIV_I i]
          grows_drain(1) [OF same_phase_updates UNIV_I d]
    by (rule grows_trans)
  note 2 = grows_same_phase [OF 1(3) this]
  show "phase (sess oc') = ph" using 1(1) 2(1) by simp
  show "phases_observed oc' = phases_observed oc @ [ph]" using 1(2) 2(2) by simp
  show "published oc'" by (rule 2(3))
  show "legal_transition (phase (sess oc)) ph" by (rule 1(4))
qed

lemma invoke_agent_phases:
  assumes "published oc" and "invoke_agent cfg sid k t vs (\<lambda>r s. s) oc = Inr (r, oc')"
  shows "phase (sess oc') = phase (sess oc)"
    and "phases_observed oc' = phases_observed oc"
    and "published oc'"
proof -
  have "grows same_phase oc oc'"
    by (rule grows_invoke_agent(1) [OF same_phase_updates UNIV_I no_contribution assms(2)])
  from grows_same_phase [OF assms(1) this]
  show "phase (sess oc') = phase (sess oc)"
    and "phases_observed oc' = phases_observed oc"
    and "published oc'" .
qed

lemma verification_step_phases:
  assumes "published oc" and "verification_step cfg sid q oc = Inr (vs, oc')"
  shows "phase (sess oc') = Verification"
    and "phases_observed oc' = phases_observed oc @ [Verification]"
    and "published oc'"
proof -
  from assms(2) obtain o1 r where
    t: "transition Verification oc = Inr o1"
    and i: "invoke_agent cfg sid Verifier (query q) [] (\<lambda>r s. s) o1 = Inr (r, oc')"
    by (rule verification_step_Inr)
  note 1 = transition_phases [OF assms(1) t]
  note 2 = invoke_agent_phases [OF 1(3) i]
  show "phase (sess oc') = Verification" using 1(1) 2(1) by simp
  show "phases_observed oc' = phases_observed oc @ [Verification]" using 1(2) 2(2) by simp
  show "published oc'" by (rule 2(3))
qed

lemma synthesis_step_phases:
  assumes "published oc" and "synthesis_step cfg sid q vs oc = Inr oc'"
  shows "phase (sess oc') = Completed"
    and "phases_observed oc' = phases_observed oc @ [Synthesis, Completed]"
    and "published oc'"
proof -
  from assms(2) obtain o1 r o2 s' where
    t: "transition Synthesis oc = Inr o1"
    and i: "invoke_agent cfg sid Synthesizer (query q) vs (\<lambda>r s. s) o1 = Inr (r, o2)"
    and c: "complete_session (build_report (sess o2) r vs) (sess o2) = Inr s'"
    and o: "oc' = mutate (\<lambda>s. s') o2"
    by (rule synthesis_step_Inr)
  note 1 = transition_phases [OF assms(1) t]
  note 2 = invoke_agent_phases [OF 1(3) i]
  from complete_session_Inr [OF c]
  have s': "s' = (sess o2)\<lparr>phase := Completed, final_report := Some (build_report (sess o2) r vs)\<rparr>"
    by simp
  show "phase (sess oc') = Completed" by (simp add: o s' mutate_def)
  show "published oc'" by (simp add: o published_def mutate_def)
  have p2: "phase (sess o2) = Synthesis" using 1(1) 2(1) by simp
  have "map phase (history o2) \<noteq> []" "last (map phase (history o2)) \<noteq> Completed"
    using 2(3) p2 by (simp_all add: published_def last_map)
  then have "remdups_adj (map phase (history o2) @ [Completed])
               = remdups_adj (map phase (history o2)) @ [Completed]"
    by (rule remdups_adj_new_last)
  then have "phases_observed oc' = phases_observed o2 @ [Completed]"
    by (simp add: phases_observed_def o s' mutate_def [of _ o2])
  then show "phases_observed oc' = phases_observed oc @ [Synthesis, Completed]"
    using 1(2) 2(2) by simp
qed

lemma pipeline_phases:
  assumes "published oc" and "pipeline cfg sid q oc = Inr oc'"
  shows "phase (sess oc') = Completed"
    and "phases_observed oc' = phases_observed oc
           @ [Patent_search, Market_analysis, Tech_trends, Verification, Synthesis, Completed]"
    and "published oc'"
    and "phase (sess oc) = Queued"
proof -
  from assms(2) obtain o1 o2 o3 vs o4 where
    r: "run_group cfg sid q Patent_search Patent_scout oc = Inr o1"
      "run_group cfg sid q Market_analysis Market_analyst o1 = Inr o2"
      "run_group cfg sid q Tech_trends Tech_trend o2 = Inr o3"
      "verification_step cfg sid q o3 = Inr (vs, o4)"
      "synthesis_step cfg sid q vs o4 = Inr oc'"
    by (rule pipeline_Inr)
  note 1 = run_group_phases [OF assms(1) r(1)]
  note 2 = run_group_phases [OF 1(3) r(2)]
  note 3 = run_group_phases [OF 2(3) r(3)]
  note 4 = verification_step_phases [OF 3(3) r(4)]
  note 5 = synthesis_step_phases [OF 4(3) r(5)]
  show "phase (sess oc') = Completed" by (rule 5(1))
  show "published oc'" by (rule 5(3))
  show "phases_observed oc' = phases_observed oc
           @ [Patent_search, Market_analysis, Tech_trends, Verification, Synthesis, Completed]"
    using 1(2) 2(2) 3(2) 4(2) 5(2) by simp
  show "phase (sess oc) = Queued"
    using legal_transition_rank [OF 1(4)]
    by (cases "phase (sess oc)") simp_all
qed

lemma stays_open_respected:
  "respects_updates UNIV stays_open" "respects_transitions stays_open"
  by (auto simp: respects_updates_def respects_transitions_def stays_open_def
           dest!: request_transition_Inr)

lemma pipeline_failure_open:
  assumes "pipeline cfg sid q oc = Inl (e, oc')" and "\<not> terminal (phase (sess oc))"
  shows "\<not> terminal (phase (sess oc'))"
proof -
  from grows_pipeline(2) [OF stays_open_respected assms(1)] obtain ext where
    e: "successively stays_open (sess oc # ext)" "sess oc' = last (sess oc # ext)"
    unfolding grows_def by blast
  have "successively (\<lambda>s s'. \<not> terminal (phase s) \<longrightarrow> \<not> terminal (phase s')) (sess oc # ext)"
    using e(1) unfolding stays_open_def [abs_def] .
  then have "\<forall>s \<in> set ext. \<not> terminal (phase s)"
    using assms(2) by (rule successively_all)
  then show ?thesis using e(2) assms(2) by (cases "ext = []") simp_all
qed

lemma start_published: "published (start cfg now q)"
  by (simp add: published_def start_def)

lemma start_phases: "phases_observed (start cfg now q) = [Queued]"
  by (simp add: phases_observed_def start_def new_session_def)

lemma run_session_outcome:
  "(\<exists>oc'. pipeline cfg sid q (start cfg now q) = Inr oc' \<and> run_session cfg sid now q = oc'
      \<and> phase (sess oc') = Completed
      \<and> phases_observed oc' = [Queued, Patent_search, Market_analysis, Tech_trends,
                                Verification, Synthesis, Completed])
   \<or> (\<exists>e oc'. pipeline cfg sid q (start cfg now q) = Inl (e, oc')
      \<and> run_session cfg sid now q = mutate (fail_session (fatal_message e)) oc'
      \<and> phase (sess (run_session cfg sid now q)) = Failed
      \<and> error (sess (run_session cfg sid now q)) = Some (fatal_message e))"
proof (cases "pipeline cfg sid q (start cfg now q)")
  case (Inr oc')
  from pipeline_phases(1,2) [OF start_published Inr] Inr show ?thesis
    by (simp add: run_session_def start_phases)
next
  case (Inl a)
  obtain e oc' where a: "a = (e, oc')" by (cases a)
  have "\<not> terminal (phase (sess (start cfg now q)))"
    by (simp add: start_def new_session_def terminal_def)
  with Inl a have "\<not> terminal (phase (sess oc'))"
    using pipeline_failure_open by blast
  then have "legal_transition (phase (sess oc')) Failed"
    by (simp add: legal_transition_def)
  with fail_session_cases [of "sess oc'" "fatal_message e"]
  have "fail_session (fatal_message e) (sess oc')
          = (sess oc')\<lparr>phase := Failed, error := Some (fatal_message e)\<rparr>" by blast
  with Inl a show ?thesis by (simp add: run_session_def mutate_def)
qed

lemma enqueues_refl: "enqueued oc' = enqueued oc \<Longrightarrow> enqueues md oc oc'"
  by (simp add: enqueues_def)

lemma enqueues_trans: "enqueues md a b \<Longrightarrow> enqueues md b c \<Longrightarrow> enqueues md a c"
  unfolding enqueues_def by (elim exE conjE, rule_tac x = "subs @ subsa" in exI) simp

text \<open>
  C5. Along the snapshots of every run the phase either stays or makes a legal
  transition: forward in the fixed order, or to \<open>failed\<close> from a phase that is not
  terminal; so its rank never decreases. A run starts in \<open>queued\<close> and ends in
  \<open>completed\<close> or \<open>failed\<close>; one that ends in \<open>completed\<close> has passed through exactly
  queued, patent_search, market_analysis, tech_trends, verification, synthesis,
  completed. The state machine accepts no other transition.
\<close>

theorem phase_only_moves_forward:
  "successively phase_step (history (run_session cfg sid now q))
   \<and> sorted (map (\<lambda>s. phase_rank (phase s)) (history (run_session cfg sid now q)))
   \<and> hd (history (run_session cfg sid now q)) = new_session now
   \<and> phase (new_session now) = Queued
   \<and> (phase (sess (run_session cfg sid now q)) = Completed
        \<or> phase (sess (run_session cfg sid now q)) = Failed)
   \<and> (phase (sess (run_session cfg sid now q)) = Completed \<longrightarrow>
        phases_observed (run_session cfg sid now q)
          = [Queued, Patent_search, Market_analysis, Tech_trends, Verification, Synthesis,
             Completed])
   \<and> (\<forall>s p s'. request_transition p s = Inr s' \<longrightarrow>
        phase s' = p \<and> \<not> terminal (phase s) \<and> (p = Failed \<or> phase_rank (phase s) < phase_rank p))"
proof (intro conjI allI impI)
  show "successively phase_step (history (run_session cfg sid now q))"
    by (rule history_run_session(1) [OF phase_step_respected])
  show "sorted (map (\<lambda>s. phase_rank (phase s)) (history (run_session cfg sid now q)))"
    by (rule run_session_sorted)
  show "hd (history (run_session cfg sid now q)) = new_session now"
    by (rule history_run_session(2) [OF phase_step_respected])
  show "phase (new_session now) = Queued" by (simp add: new_session_def)
  show "phase (sess (run_session cfg sid now q)) = Completed
        \<or> phase (sess (run_session cfg sid now q)) = Failed"
    using run_session_outcome [of cfg sid q now] by auto
next
  assume c: "phase (sess (run_session cfg sid now q)) = Completed"
  from run_session_outcome [of cfg sid q now] c
  show "phases_observed (run_session cfg sid now q)
          = [Queued, Patent_search, Market_analysis, Tech_trends, Verification, Synthesis,
             Completed]"
    by auto
next
  fix s p s'
  assume "request_transition p s = Inr s'"
  from request_transition_Inr [OF this]
  show "phase s' = p" "\<not> terminal (phase s)" "p = Failed \<or> phase_rank (phase s) < phase_rank p"
    by (simp_all add: legal_transition_def)
qed

theorem phase_only_moves_forward_witness:
  "phase (sess (run_session (example_collaborators None 1) ''s1'' 0 (example_query 1))) = Completed
   \<and> phases_observed (run_session (example_collaborators None 1) ''s1'' 0 (example_query 1))
       = [Queued, Patent_search, Market_analysis, Tech_trends, Verification, Synthesis, Completed]
   \<and> request_transition Patent_search (new_session 0) = Inr ((new_session 0)\<lparr>phase := Patent_search\<rparr>)
   \<and> phase_rank (phase (new_session 0)) < phase_rank Patent_search"
proof -
  have c: "phase (sess (run_session (example_collaborators None 1) ''s1'' 0 (example_query 1)))
             = Completed"
    by code_simp
  have r: "request_transition Patent_search (new_session 0)
             = Inr ((new_session 0)\<lparr>phase := Patent_search\<rparr>)"
    by (simp add: request_transition_def legal_transition_def terminal_def new_session_def)
  note th = phase_only_moves_forward [of "example_collaborators None 1" "''s1''" 0 "example_query 1"]
  from th c r show ?thesis by (simp add: new_session_def)
qed

section \<open>The depth of sub-queries\<close>

lemma expand_within_depth:
  assumes "expand pol K md sn f = Inr subs"
  shows "list_all (within_depth md) subs"
proof (cases "int (depth f + 1) > md")
  case True
  with assms show ?thesis by (simp add: expand_def Let_def split: if_splits)
next
  case False
  with assms have "subs = map (\<lambda>t. \<lparr>parent = f, sq_text = t, sq_depth = depth f + 1, sq_origin = origin f\<rparr>)
                  (admit sn (pol f))"
    by (simp add: expand_def Let_def split: if_splits)
  with False show ?thesis by (simp add: list_all_iff within_depth_def)
qed

lemma expand_all_within_depth:
  "expand_all pol K md sn fs = Inr (subs, sn') \<Longrightarrow> list_all (within_depth md) subs"
proof (induction fs arbitrary: sn subs sn')
  case Nil
  then show ?case by simp
next
  case (Cons f fs)
  from Cons.prems obtain s1 rest where
    1: "expand pol K md sn f = Inr s1"
    and 2: "expand_all pol K md (map (\<lambda>sq. normalize (sq_text sq)) s1 @ sn) fs = Inr (rest, sn')"
    and s: "subs = s1 @ rest"
    by (auto split: sum.splits)
  from expand_within_depth [OF 1] Cons.IH [OF 2] s show ?case by simp
qed

lemma mutate_orch_fields [simp]:
  "enqueued (mutate f oc) = enqueued oc"
  "seen (mutate f oc) = seen oc"
  "budget (mutate f oc) = budget oc"
  "logged (mutate f oc) = logged oc"
  "sess (mutate f oc) = f (sess oc)"
  "history (mutate f oc) = history oc @ [f (sess oc)]"
  by (simp_all add: mutate_def)

lemma invoke_agent_enqueued:
  "invoke_agent cfg sid k t vs absorb oc = Inr (r, oc') \<Longrightarrow> enqueued oc' = enqueued oc"
  "invoke_agent cfg sid k t vs absorb oc = Inl (e, oc') \<Longrightarrow> enqueued oc' = enqueued oc"
  by (auto dest!: invoke_agent_Inr invoke_agent_Inl)

lemma enqueues_investigate:
  shows "investigate cfg sid md k t d oc = Inr (subs, oc') \<Longrightarrow>
           enqueues md oc oc' \<and> list_all (within_depth md) subs"
    and "investigate cfg sid md k t d oc = Inl (e, oc') \<Longrightarrow> enqueues md oc oc'"
proof -
  { assume "investigate cfg sid md k t d oc = Inr (subs, oc')"
    then obtain r o1 sn where
      i: "invoke_agent cfg sid k t [] (record_result k d) oc = Inr (r, o1)"
      and e: "expand_all (policy cfg) (fan_out cfg) md (seen o1)
                (drop (length (findings (sess oc))) (findings (sess o1))) = Inr (subs, sn)"
      and o: "oc' = o1\<lparr>seen := sn, enqueued := enqueued o1 @ subs\<rparr>"
      by (rule investigate_Inr)
    from expand_all_within_depth [OF e] invoke_agent_enqueued(1) [OF i] o
    show "enqueues md oc oc' \<and> list_all (within_depth md) subs"
      by (auto simp: enqueues_def) }
  { assume "investigate cfg sid md k t d oc = Inl (e, oc')"
    from investigate_Inl [OF this] show "enqueues md oc oc'"
      by (auto dest: invoke_agent_enqueued intro: enqueues_refl) }
qed

lemma enqueues_drain:
  shows "drain cfg sid md k n queue oc = Inr oc' \<Longrightarrow> enqueues md oc oc'"
    and "drain cfg sid md k n queue oc = Inl (e, oc') \<Longrightarrow> enqueues md oc oc'"
proof (induction n arbitrary: queue oc)
  case 0
  { case 1 then show ?case by (auto intro: enqueues_refl) }
  { case 2 then show ?case by simp }
next
  case (Suc n)
  { case 1
    show ?case
    proof (cases queue)
      case Nil
      with 1 show ?thesis by (auto intro: enqueues_refl)
    next
      case (Cons sq rest)
      with 1 obtain subs o1 where
        i: "investigate cfg sid md k (sq_text sq) (sq_depth sq) oc = Inr (subs, o1)"
        and r: "drain cfg sid md k n (rest @ subs) o1 = Inr oc'"
        by (auto split: sum.splits)
      from enqueues_investigate(1) [OF i] Suc.IH(1) [OF r]
      show ?thesis by (blast intro: enqueues_trans)
    qed }
  { case 2
    show ?case
    proof (cases queue)
      case Nil
      with 2 show ?thesis by simp
    next
      case (Cons sq rest)
      show ?thesis
      proof (cases "investigate cfg sid md k (sq_text sq) (sq_depth sq) oc")
        case (Inl a)
        with 2 Cons have "a = (e, oc')" by simp
        with Inl enqueues_investigate(2) show ?thesis by blast
      next
        case (Inr b)
        then obtain subs o1 where
          i: "investigate cfg sid md k (sq_text sq) (sq_depth sq) oc = Inr (subs, o1)"
          by (cases b) simp
        with 2 Cons have r: "drain cfg sid md k n (rest @ subs) o1 = Inl (e, oc')" by simp
        from enqueues_investigate(1) [OF i] Suc.IH(2) [OF r]
        show ?thesis by (blast intro: enqueues_trans)
      qed
    qed }
qed

lemma enqueues_transition:
  "transition q oc = Inr oc' \<Longrightarrow> enqueued oc' = enqueued oc"
  "transition q oc = Inl (e, oc') \<Longrightarrow> enqueued oc' = enqueued oc"
  by (auto simp: transition_def split: sum.splits)

lemma enqueues_run_group:
  shows "run_group cfg sid q ph k oc = Inr oc' \<Longrightarrow> enqueues (max_recursion_depth q) oc oc'"
    and "run_group cfg sid q ph k oc = Inl (e, oc') \<Longrightarrow> enqueues (max_recursion_depth q) oc oc'"
proof -
  let ?md = "max_recursion_depth q"
  { assume "run_group cfg sid q ph k oc = Inr oc'"
    then obtain o1 subs o2 where
      t: "transition ph oc = Inr o1"
      and i: "investigate cfg sid ?md k (query q) 0 o1 = Inr (subs, o2)"
      and d: "drain cfg sid ?md k (budget o2) subs o2 = Inr oc'"
      by (auto simp: run_group_def split: sum.splits)
    from enqueues_refl [OF enqueues_transition(1) [OF t]] enqueues_investigate(1) [OF i]
         enqueues_drain(1) [OF d]
    show "enqueues ?md oc oc'" by (blast intro: enqueues_trans) }
  { assume r: "run_group cfg sid q ph k oc = Inl (e, oc')"
    show "enqueues ?md oc oc'"
    proof (cases "transition ph oc")
      case (Inl a)
      with r have "transition ph oc = Inl (e, oc')" by (simp add: run_group_def)
      from enqueues_refl [OF enqueues_transition(2) [OF this]] show ?thesis .
    next
      case t: (Inr o1)
      note 1 = enqueues_refl [OF enqueues_transition(1) [OF t], of ?md]
      show ?thesis
      proof (cases "investigate cfg sid ?md k (query q) 0 o1")
        case (Inl a)
        with r t have "investigate cfg sid ?md k (query q) 0 o1 = Inl (e, oc')"
          by (simp add: run_group_def)
        from enqueues_trans [OF 1 enqueues_investigate(2) [OF this]] show ?thesis .
      next
        case (Inr b)
        then obtain subs o2 where
          i: "investigate cfg sid ?md k (query q) 0 o1 = Inr (subs, o2)"
          by (cases b) simp
        with r t have d: "drain cfg sid ?md k (budget o2) subs o2 = Inl (e, oc')"
          by (simp add: run_group_def)
        from enqueues_investigate(1) [OF i] have 2: "enqueues ?md o1 o2" by simp
        from enqueues_trans [OF 1 enqueues_trans [OF 2 enqueues_drain(2) [OF d]]]
        show ?thesis .
      qed
    qed }
qed

lemma enqueued_verification_step:
  "verification_step cfg sid q oc = Inr (vs, oc') \<Longrightarrow> enqueued oc' = enqueued oc"
  "verification_step cfg sid q oc = Inl (e, oc') \<Longrightarrow> enqueued oc' = enqueued oc"
proof -
  { assume "verification_step cfg sid q oc = Inr (vs, oc')"
    then obtain o1 r where
      "transition Verification oc = Inr o1"
      "invoke_agent cfg sid Verifier (query q) [] (\<lambda>r s. s) o1 = Inr (r, oc')"
      by (rule verification_step_Inr)
    then show "enqueued oc' = enqueued oc"
      using enqueues_transition(1) invoke_agent_enqueued(1) by metis }
  { assume "verification_step cfg sid q oc = Inl (e, oc')"
    from verification_step_Inl [OF this] show "enqueued oc' = enqueued oc"
      using enqueues_transition invoke_agent_enqueued by metis }
qed

lemma enqueued_synthesis_step:
  "synthesis_step cfg sid q vs oc = Inr oc' \<Longrightarrow> enqueued oc' = enqueued oc"
  "synthesis_step cfg sid q vs oc = Inl (e, oc') \<Longrightarrow> enqueued oc' = enqueued oc"
proof -
  { assume "synthesis_step cfg sid q vs oc = Inr oc'"
    then obtain o1 r o2 s' where
      "transition Synthesis oc = Inr o1"
      "invoke_agent cfg sid Synthesizer (query q) vs (\<lambda>r s. s) o1 = Inr (r, o2)"
      "oc' = mutate (\<lambda>s. s') o2"
      by (rule synthesis_step_Inr)
    then show "enqueued oc' = enqueued oc"
      using enqueues_transition(1) invoke_agent_enqueued(1) by (simp add: mutate_def) }
  { assume "synthesis_step cfg sid q vs oc = Inl (e, oc')"
    from synthesis_step_Inl [OF this] show "enqueued oc' = enqueued oc"
      using enqueues_transition invoke_agent_enqueued by metis }
qed

lemma enqueues_pipeline:
  shows "pipeline cfg sid q oc = Inr oc' \<Longrightarrow> enqueues (max_recursion_depth q) oc oc'"
    and "pipeline cfg sid q oc = Inl (e, oc') \<Longrightarrow> enqueues (max_recursion_depth q) oc oc'"
proof -
  let ?md = "max_recursion_depth q"
  note g = enqueues_run_group [of cfg sid q]
  have v: "\<And>a b vs. verification_step cfg sid q a = Inr (vs, b) \<Longrightarrow> enqueues ?md a b"
    "\<And>a b. verification_step cfg sid q a = Inl (e, b) \<Longrightarrow> enqueues ?md a b"
    by (auto dest: enqueued_verification_step intro: enqueues_refl)
  have s: "\<And>a b vs. synthesis_step cfg sid q vs a = Inr b \<Longrightarrow> enqueues ?md a b"
    "\<And>a b vs. synthesis_step cfg sid q vs a = Inl (e, b) \<Longrightarrow> enqueues ?md a b"
    by (auto dest: enqueued_synthesis_step intro: enqueues_refl)
  { assume "pipeline cfg sid q oc = Inr oc'"
    then obtain o1 o2 o3 vs o4 where
      r: "run_group cfg sid q Patent_search Patent_scout oc = Inr o1"
      "run_group cfg sid q Market_analysis Market_analyst o1 = Inr o2"
      "run_group cfg sid q Tech_trends Tech_trend o2 = Inr o3"
      "verification_step cfg sid q o3 = Inr (vs, o4)"
      "synthesis_step cfg sid q vs o4 = Inr oc'"
      by (rule pipeline_Inr)
    from enqueues_trans [OF g(1) [OF r(1)] enqueues_trans [OF g(1) [OF r(2)]
           enqueues_trans [OF g(1) [OF r(3)] enqueues_trans [OF v(1) [OF r(4)] s(1) [OF r(5)]]]]]
    show "enqueues ?md oc oc'" . }
  { assume p: "pipeline cfg sid q oc = Inl (e, oc')"
    from pipeline_Inl [OF p] show "enqueues ?md oc oc'"
    proof (elim disjE exE conjE, goal_cases)
      case 1
      then show ?case by (rule g(2))
    next
      case (2 o1)
      from enqueues_trans [OF g(1) [OF 2(1)] g(2) [OF 2(2)]] show ?case .
    next
      case (3 o1 o2)
      from enqueues_trans [OF g(1) [OF 3(1)] enqueues_trans [OF g(1) [OF 3(2)] g(2) [OF 3(3)]]]
      show ?case .
    next
      case (4 o1 o2 o3)
      from enqueues_trans [OF g(1) [OF 4(1)] enqueues_trans [OF g(1) [OF 4(2)]
             enqueues_trans [OF g(1) [OF 4(3)] v(2) [OF 4(4)]]]]
      show ?case .
    next
      case (5 o1 o2 o3 vs o4)
      from enqueues_trans [OF g(1) [OF 5(1)] enqueues_trans [OF g(1) [OF 5(2)]
             enqueues_trans [OF g(1) [OF 5(3)] enqueues_trans [OF v(1) [OF 5(4)] s(2) [OF 5(5)]]]]]
      show ?case .
    qed }
qed

lemma enqueued_run_session:
  "list_all (within_depth (max_recursion_depth q)) (enqueued (run_session cfg sid now q))"
proof -
  have "enqueues (max_recursion_depth q) (start cfg now q) (run_session cfg sid now q)"
  proof (cases "pipeline cfg sid q (start cfg now q)")
    case (Inl a)
    obtain e oc' where a: "a = (e, oc')" by (cases a)
    with Inl have "enqueues (max_recursion_depth q) (start cfg now q) oc'"
      using enqueues_pipeline(2) by blast
    with Inl a show ?thesis by (simp add: run_session_def enqueues_def)
  next
    case (Inr oc')
    then show ?thesis using enqueues_pipeline(1) by (simp add: run_session_def)
  qed
  then show ?thesis by (simp add: enqueues_def start_def)
qed

text \<open>
  C8. Every sub-query the expander returns has depth \<open>parent.depth + 1\<close>, and that depth
  does not exceed the maximum; so does every sub-query enqueued in a run. With a maximum
  of 0 (or less) the expander returns none and a run enqueues none. The queue is drained
  by recursion on what is left of the ceiling, so a run is a total function of its
  inputs.
\<close>

theorem expander_depth_bound:
  "(\<forall>subs. expand pol K max_depth sn f = Inr subs \<longrightarrow>
      (\<forall>sq \<in> set subs. sq_depth sq = depth f + 1 \<and> int (sq_depth sq) \<le> max_depth))
   \<and> (\<forall>sq \<in> set (enqueued (run_session cfg sid now q)).
        sq_depth sq = depth (parent sq) + 1 \<and> int (sq_depth sq) \<le> max_recursion_depth q)
   \<and> (max_recursion_depth q \<le> 0 \<longrightarrow> enqueued (run_session cfg sid now q) = [])
   \<and> (max_depth \<le> 0 \<and> length (pol f) \<le> K \<longrightarrow> expand pol K max_depth sn f = Inr [])"
proof (intro conjI allI impI)
  fix subs
  assume e: "expand pol K max_depth sn f = Inr subs"
  show "\<forall>sq \<in> set subs. sq_depth sq = depth f + 1 \<and> int (sq_depth sq) \<le> max_depth"
  proof
    fix sq
    assume sq: "sq \<in> set subs"
    with expand_within_depth [OF e] have w: "within_depth max_depth sq"
      by (simp add: list_all_iff)
    from e sq have "parent sq = f"
      by (auto simp: expand_def Let_def split: if_splits)
    with w show "sq_depth sq = depth f + 1 \<and> int (sq_depth sq) \<le> max_depth"
      by (simp add: within_depth_def)
  qed
next
  show "\<forall>sq \<in> set (enqueued (run_session cfg sid now q)).
          sq_depth sq = depth (parent sq) + 1 \<and> int (sq_depth sq) \<le> max_recursion_depth q"
    using enqueued_run_session [of q cfg sid now] unfolding list_all_iff within_depth_def .
next
  assume z: "max_recursion_depth q \<le> 0"
  show "enqueued (run_session cfg sid now q) = []"
  proof (cases "enqueued (run_session cfg sid now q)")
    case Nil
    then show ?thesis .
  next
    case (Cons sq rest)
    with enqueued_run_session [of q cfg sid now]
    have "within_depth (max_recursion_depth q) sq" by simp
    with z show ?thesis by (simp add: within_depth_def)
  qed
next
  assume "max_depth \<le> 0 \<and> length (pol f) \<le> K"
  then show "expand pol K max_depth sn f = Inr []"
    by (simp add: expand_def Let_def)
qed

theorem expander_depth_bound_witness:
  "expand (\<lambda>f. [''anode coatings'']) 1 1 []
       \<lparr>origin = Patent_scout, depth = 0, content = ''sulfide electrolyte''\<rparr>
     = Inr [\<lparr>parent = \<lparr>origin = Patent_scout, depth = 0, content = ''sulfide electrolyte''\<rparr>,
             sq_text = ''anode coatings'', sq_depth = 1, sq_origin = Patent_scout\<rparr>]
   \<and> expand (\<lambda>f. [''anode coatings'']) 1 0 []
       \<lparr>origin = Patent_scout, depth = 0, content = ''sulfide electrolyte''\<rparr> = Inr []
   \<and> enqueued (run_session (example_collaborators None 1) ''s1'' 0 (example_query 0)) = []
   \<and> enqueued (run_session (example_collaborators None 1) ''s1'' 0 (example_query 1)) \<noteq> []
   \<and> int (sq_depth (hd (enqueued (run_session (example_collaborators None 1) ''s1'' 0
                                     (example_query 1))))) \<le> 1"
proof -
  let ?f = "\<lparr>origin = Patent_scout, depth = 0, content = ''sulfide electrolyte''\<rparr>"
  let ?r1 = "run_session (example_collaborators None 1) ''s1'' 0 (example_query 1)"
  have e1: "expand (\<lambda>f. [''anode coatings'']) 1 1 [] ?f
     = Inr [\<lparr>parent = ?f, sq_text = ''anode coatings'', sq_depth = 1, sq_origin = Patent_scout\<rparr>]"
    by code_simp
  have ne: "enqueued ?r1 \<noteq> []" by code_simp
  then have hd: "hd (enqueued ?r1) \<in> set (enqueued ?r1)" by simp
  have md: "max_recursion_depth (example_query 0) \<le> 0" "max_recursion_depth (example_query 1) = 1"
    by (simp_all add: example_query_def)
  note t0 = expander_depth_bound [of "\<lambda>f. [''anode coatings'']" 1 0 "[]" ?f
              "example_collaborators None 1" "''s1''" 0 "example_query 0"]
  note t1 = expander_depth_bound [of "\<lambda>f. [''anode coatings'']" 1 1 "[]" ?f
              "example_collaborators None 1" "''s1''" 0 "example_query 1"]
  from t0 md have a: "expand (\<lambda>f. [''anode coatings'']) 1 0 [] ?f = Inr []"
    and b: "enqueued (run_session (example_collaborators None 1) ''s1'' 0 (example_query 0)) = []"
    by simp_all
  from t1 hd md have c: "int (sq_depth (hd (enqueued ?r1))) \<le> 1" by auto
  from e1 a b ne c show ?thesis by simp
qed

section \<open>Completion and agent statuses\<close>

lemma agent_id_inj [simp]: "(agent_id k = agent_id k') = (k = k')"
  by (cases k; cases k'; simp)

lemma expand_all_ok:
  assumes "\<forall>f. length (pol f) \<le> K"
  shows "\<exists>r. expand_all pol K md sn fs = Inr r"
proof (induction fs arbitrary: sn)
  case Nil
  then show ?case by simp
next
  case (Cons f fs)
  from assms have "length (pol f) \<le> K" by simp
  then have "\<exists>subs. expand pol K md sn f = Inr subs"
    by (simp add: expand_def Let_def)
  then obtain subs where e: "expand pol K md sn f = Inr subs" by blast
  from Cons.IH [of "map (\<lambda>sq. normalize (sq_text sq)) subs @ sn"] obtain r where
    "expand_all pol K md (map (\<lambda>sq. normalize (sq_text sq)) subs @ sn) fs = Inr r" by blast
  with e show ?case by (cases r) simp
qed

lemma verify_all_never_fails:
  assumes "\<forall>c. \<exists>ev. search c = Inr ev"
  shows "\<exists>vs. verify_all search cs = Inr vs"
proof (induction cs)
  case Nil
  then show ?case by simp
next
  case (Cons c cs)
  obtain claim sources where c: "c = (claim, sources)" by (cases c)
  from assms obtain ev where "search claim = Inr ev" by blast
  then obtain r where "verify_claim search claim sources = Inr r"
    by (cases "ev = []") (simp_all add: verify_claim_def)
  with Cons.IH c show ?case by auto
qed

lemma agent_execute_never_escapes:
  "never_interrupted cfg \<Longrightarrow> agent_execute cfg k t ctx \<noteq> Escapes b"
  by (cases ctx)
     (auto simp: agent_execute_def verifier_execute_def never_interrupted_def
           split: sum.splits py_exception.splits)

lemma set_agent_twice: "set_agent k f (set_agent k g s) = set_agent k (\<lambda>a. f (g a)) s"
  by (simp add: set_agent_def split: option.splits)

lemma record_result_empty: "record_result k d empty_result s = s"
  by (simp add: record_result_def empty_result_def)

lemma invoke_agent_sess:
  assumes "invoke_agent cfg sid k t vs absorb oc = Inr (r, oc')"
  shows "sess oc' =
           absorb r
             (set_agent k (agent_done (agent_execute cfg k t (findings (sess oc), vs)))
                (set_agent k (\<lambda>a. a\<lparr>status := St_running, current_task := Some t\<rparr>) (sess oc)))"
  using assms
  by (auto simp: invoke_agent_def run_agent_def Let_def split: outcome.splits)

lemma invoke_agent_raises:
  assumes "agent_execute cfg k t (findings (sess oc), vs) = Raises e"
  shows "\<exists>oc'. invoke_agent cfg sid k t vs absorb oc = Inr (empty_result, oc')
           \<and> sess oc' = absorb empty_result
                          (set_agent k (\<lambda>a. a\<lparr>status := St_error, current_task := None\<rparr>) (sess oc))
           \<and> logged oc' = logged oc @ [agent_id k @ '' failed: '' @ error_text e]"
  using assms
  by (simp add: invoke_agent_def run_agent_def Let_def set_agent_twice agent_done_def)

lemma invoke_agent_ok:
  assumes "never_interrupted cfg"
  shows "\<exists>r oc'. invoke_agent cfg sid k t vs absorb oc = Inr (r, oc')"
proof (cases "agent_execute cfg k t (findings (sess oc), vs)")
  case (Returns r)
  then show ?thesis by (simp add: invoke_agent_def run_agent_def Let_def)
next
  case (Raises e)
  from invoke_agent_raises [OF this] show ?thesis by blast
next
  case (Escapes b)
  with agent_execute_never_escapes [OF assms] show ?thesis by blast
qed

lemma investigate_ok:
  assumes "within_fan_out cfg" and "never_interrupted cfg"
  shows "\<exists>subs oc'. investigate cfg sid md k t d oc = Inr (subs, oc')"
proof -
  from invoke_agent_ok [OF assms(2)] obtain r o1 where
    i: "invoke_agent cfg sid k t [] (record_result k d) oc = Inr (r, o1)" by blast
  from assms(1) have "\<forall>f. length (policy cfg f) \<le> fan_out cfg" by (simp add: within_fan_out_def)
  from expand_all_ok [OF this] obtain x where
    "expand_all (policy cfg) (fan_out cfg) md (seen o1)
       (drop (length (findings (sess oc))) (findings (sess o1))) = Inr x" by blast
  with i show ?thesis by (cases x) (simp add: investigate_def Let_def)
qed

lemma drain_ok:
  assumes "within_fan_out cfg" and "never_interrupted cfg"
  shows "\<exists>oc'. drain cfg sid md k n queue oc = Inr oc'"
proof (induction n arbitrary: queue oc)
  case 0
  then show ?case by simp
next
  case (Suc n)
  show ?case
  proof (cases queue)
    case Nil
    then show ?thesis by simp
  next
    case (Cons sq rest)
    from investigate_ok [OF assms] obtain subs o1 where
      "investigate cfg sid md k (sq_text sq) (sq_depth sq) oc = Inr (subs, o1)" by blast
    with Suc.IH [of "rest @ subs" o1] Cons show ?thesis by simp
  qed
qed

lemma transition_ok:
  "legal_transition (phase (sess oc)) q \<Longrightarrow> transition q oc = Inr (mutate (\<lambda>s. (sess oc)\<lparr>phase := q\<rparr>) oc)"
  by (simp add: transition_def request_transition_def)

lemma run_group_ok:
  assumes "within_fan_out cfg" and "never_interrupted cfg"
    and "legal_transition (phase (sess oc)) ph"
  shows "\<exists>oc'. run_group cfg sid q ph k oc = Inr oc'"
proof -
  let ?o1 = "mutate (\<lambda>s. (sess oc)\<lparr>phase := ph\<rparr>) oc"
  from investigate_ok [OF assms(1,2)] obtain subs o2 where
    i: "investigate cfg sid (max_recursion_depth q) k (query q) 0 ?o1 = Inr (subs, o2)" by blast
  from drain_ok [OF assms(1,2)] obtain oc' where
    "drain cfg sid (max_recursion_depth q) k (budget o2) subs o2 = Inr oc'" by blast
  with i transition_ok [OF assms(3)] show ?thesis by (simp add: run_group_def)
qed

lemma verification_step_ok:
  assumes "never_interrupted cfg" and "legal_transition (phase (sess oc)) Verification"
  shows "\<exists>vs oc'. verification_step cfg sid q oc = Inr (vs, oc')"
proof -
  let ?o1 = "mutate (\<lambda>s. (sess oc)\<lparr>phase := Verification\<rparr>) oc"
  from invoke_agent_ok [OF assms(1)] obtain r o2 where
    "invoke_agent cfg sid Verifier (query q) [] (\<lambda>r s. s) ?o1 = Inr (r, o2)" by blast
  with transition_ok [OF assms(2)] show ?thesis by (simp add: verification_step_def)
qed

lemma synthesis_step_ok:
  assumes "never_interrupted cfg" and "legal_transition (phase (sess oc)) Synthesis"
  shows "\<exists>oc'. synthesis_step cfg sid q vs oc = Inr oc'"
proof -
  let ?o1 = "mutate (\<lambda>s. (sess oc)\<lparr>phase := Synthesis\<rparr>) oc"
  from invoke_agent_ok [OF assms(1)] obtain r o2 where
    i: "invoke_agent cfg sid Synthesizer (query q) vs (\<lambda>r s. s) ?o1 = Inr (r, o2)" by blast
  from invoke_agent_sess [OF i] have "phase (sess o2) = Synthesis" by simp
  then have "\<exists>s'. complete_session (build_report (sess o2) r vs) (sess o2) = Inr s'"
    by (simp add: complete_session_def request_transition_def legal_transition_def terminal_def)
  with i transition_ok [OF assms(2)] show ?thesis by (auto simp: synthesis_step_def)
qed

lemma pipeline_ok:
  assumes "within_fan_out cfg" and "never_interrupted cfg"
    and "published oc" and "phase (sess oc) = Queued"
  shows "\<exists>oc'. pipeline cfg sid q oc = Inr oc'"
proof -
  have l1: "legal_transition (phase (sess oc)) Patent_search"
    using assms(4) by (simp add: legal_transition_def terminal_def)
  from run_group_ok [OF assms(1,2) l1] obtain o1 where
    r1: "run_group cfg sid q Patent_search Patent_scout oc = Inr o1" by blast
  note p1 = run_group_phases [OF assms(3) r1]
  have l2: "legal_transition (phase (sess o1)) Market_analysis"
    using p1(1) by (simp add: legal_transition_def terminal_def)
  from run_group_ok [OF assms(1,2) l2] obtain o2 where
    r2: "run_group cfg sid q Market_analysis Market_analyst o1 = Inr o2" by blast
  note p2 = run_group_phases [OF p1(3) r2]
  have l3: "legal_transition (phase (sess o2)) Tech_trends"
    using p2(1) by (simp add: legal_transition_def terminal_def)
  from run_group_ok [OF assms(1,2) l3] obtain o3 where
    r3: "run_group cfg sid q Tech_trends Tech_trend o2 = Inr o3" by blast
  note p3 = run_group_phases [OF p2(3) r3]
  have l4: "legal_transition (phase (sess o3)) Verification"
    using p3(1) by (simp add: legal_transition_def terminal_def)
  from verification_step_ok [OF assms(2) l4] obtain vs o4 where
    r4: "verification_step cfg sid q o3 = Inr (vs, o4)" by blast
  note p4 = verification_step_phases [OF p3(3) r4]
  have l5: "legal_transition (phase (sess o4)) Synthesis"
    using p4(1) by (simp add: legal_transition_def terminal_def)
  from synthesis_step_ok [OF assms(2) l5] obtain oc' where
    r5: "synthesis_step cfg sid q vs o4 = Inr oc'" by blast
  from r1 r2 r3 r4 r5 show ?thesis by (simp add: pipeline_def)
qed

lemma run_session_completes:
  assumes "within_fan_out cfg" and "never_interrupted cfg"
  shows "\<exists>oc'. pipeline cfg sid q (start cfg now q) = Inr oc' \<and> run_session cfg sid now q = oc'
           \<and> phase (sess oc') = Completed"
proof -
  have "phase (sess (start cfg now q)) = Queued" by (simp add: start_def new_session_def)
  from pipeline_ok [OF assms start_published this] obtain oc' where
    p: "pipeline cfg sid q (start cfg now q) = Inr oc'" by blast
  from pipeline_phases(1) [OF start_published p] p show ?thesis
    by (simp add: run_session_def)
qed

lemma set_agent_lookup:
  "agent_statuses (set_agent k g s) (agent_id k') =
     (if k' = k then map_option g (agent_statuses s (agent_id k)) else agent_statuses s (agent_id k'))"
  by (simp add: set_agent_def split: option.splits)

lemma status_agent_done:
  "status (agent_done outcome (a\<lparr>status := St_running, current_task := c\<rparr>)) = outcome_status outcome"
  by (cases outcome) (simp_all add: agent_done_def)

lemma invoke_agent_status:
  assumes "invoke_agent cfg sid k t vs absorb oc = Inr (r, oc')"
    and "absorb = record_result k d \<or> absorb = (\<lambda>r s. s)"
    and "agent_statuses (sess oc) (agent_id k) \<noteq> None"
  shows "status_of (sess oc') k
           = Some (outcome_status (agent_execute cfg k t (findings (sess oc), vs)))"
  using assms(2,3) unfolding invoke_agent_sess [OF assms(1)]
  by (auto simp: status_of_def set_agent_lookup status_agent_done)

lemma investigate_status:
  assumes "investigate cfg sid md k t d oc = Inr (subs, oc')"
    and "agent_statuses (sess oc) (agent_id k) \<noteq> None"
  shows "status_of (sess oc') k
           = Some (outcome_status (agent_execute cfg k t (findings (sess oc), [])))"
proof -
  from assms(1) obtain r o1 sn where
    i: "invoke_agent cfg sid k t [] (record_result k d) oc = Inr (r, o1)"
    and o: "oc' = o1\<lparr>seen := sn, enqueued := enqueued o1 @ subs\<rparr>"
    by (rule investigate_Inr)
  have "record_result k d = record_result k d \<or> record_result k d = (\<lambda>r s. s)" by simp
  from invoke_agent_status [OF i this assms(2)] o show ?thesis by simp
qed

lemma drain_status:
  assumes "\<forall>t ctx. outcome_status (agent_execute cfg k t ctx) = v"
  shows "status_of (sess oc) k = Some v \<Longrightarrow> drain cfg sid md k n queue oc = Inr oc'
           \<Longrightarrow> status_of (sess oc') k = Some v"
proof (induction n arbitrary: queue oc)
  case 0
  then show ?case by auto
next
  case (Suc n)
  show ?case
  proof (cases queue)
    case Nil
    with Suc.prems show ?thesis by auto
  next
    case (Cons sq rest)
    with Suc.prems(2) obtain subs o1 where
      i: "investigate cfg sid md k (sq_text sq) (sq_depth sq) oc = Inr (subs, o1)"
      and r: "drain cfg sid md k n (rest @ subs) o1 = Inr oc'"
      by (auto split: sum.splits)
    have "agent_statuses (sess oc) (agent_id k) \<noteq> None"
      using Suc.prems(1) by (auto simp: status_of_def)
    from investigate_status [OF i this] assms
    have "status_of (sess o1) k = Some v" by simp
    from Suc.IH [OF this r] show ?thesis .
  qed
qed

lemma transition_entries:
  "transition ph oc = Inr o1 \<Longrightarrow> agent_statuses (sess o1) = agent_statuses (sess oc)"
  "transition ph oc = Inr o1 \<Longrightarrow> findings (sess o1) = findings (sess oc)"
  by (auto simp: transition_def split: sum.splits dest!: request_transition_Inr)

lemma run_group_status:
  assumes "\<forall>t ctx. outcome_status (agent_execute cfg k t ctx) = v"
    and "agent_statuses (sess oc) (agent_id k) \<noteq> None"
    and "run_group cfg sid q ph k oc = Inr oc'"
  shows "status_of (sess oc') k = Some v"
proof -
  from assms(3) obtain o1 subs o2 where
    t: "transition ph oc = Inr o1"
    and i: "investigate cfg sid (max_recursion_depth q) k (query q) 0 o1 = Inr (subs, o2)"
    and d: "drain cfg sid (max_recursion_depth q) k (budget o2) subs o2 = Inr oc'"
    by (auto simp: run_group_def split: sum.splits)
  from transition_entries(1) [OF t] assms(2)
  have "agent_statuses (sess o1) (agent_id k) \<noteq> None" by simp
  from investigate_status [OF i this] assms(1)
  have "status_of (sess o2) k = Some v" by simp
  from drain_status [OF assms(1) this d] show ?thesis .
qed

lemma verification_step_status:
  assumes "\<forall>t ctx. outcome_status (agent_execute cfg Verifier t ctx) = v"
    and "agent_statuses (sess oc) (agent_id Verifier) \<noteq> None"
    and "verification_step cfg sid q oc = Inr (vs, oc')"
  shows "status_of (sess oc') Verifier = Some v"
proof -
  from assms(3) obtain o1 r where
    t: "transition Verification oc = Inr o1"
    and i: "invoke_agent cfg sid Verifier (query q) [] (\<lambda>r s. s) o1 = Inr (r, oc')"
    by (rule verification_step_Inr)
  from transition_entries(1) [OF t] assms(2)
  have "agent_statuses (sess o1) (agent_id Verifier) \<noteq> None" by simp
  from invoke_agent_status [OF i no_contribution this] assms(1) show ?thesis by simp
qed

lemma synthesis_step_status:
  assumes "\<forall>t ctx. outcome_status (agent_execute cfg Synthesizer t ctx) = v"
    and "agent_statuses (sess oc) (agent_id Synthesizer) \<noteq> None"
    and "synthesis_step cfg sid q vs oc = Inr oc'"
  shows "status_of (sess oc') Synthesizer = Some v"
proof -
  from assms(3) obtain o1 r o2 s' where
    t: "transition Synthesis oc = Inr o1"
    and i: "invoke_agent cfg sid Synthesizer (query q) vs (\<lambda>r s. s) o1 = Inr (r, o2)"
    and c: "complete_session (build_report (sess o2) r vs) (sess o2) = Inr s'"
    and o: "oc' = mutate (\<lambda>s. s') o2"
    by (rule synthesis_step_Inr)
  from transition_entries(1) [OF t] assms(2)
  have "agent_statuses (sess o1) (agent_id Synthesizer) \<noteq> None" by simp
  from invoke_agent_status [OF i no_contribution this] assms(1)
  have "status_of (sess o2) Synthesizer = Some v" by simp
  with complete_session_Inr [OF c] o show ?thesis by (simp add: status_of_def)
qed

lemma keeps_agent_respected:
  "respects_updates (- {k}) (keeps_agent k)" "respects_transitions (keeps_agent k)"
  "respects_completion (keeps_agent k)"
  by (auto simp: respects_updates_def respects_transitions_def respects_completion_def
           keeps_agent_def set_agent_lookup
           dest!: request_transition_Inr complete_session_Inr)

lemma grows_keeps_agent:
  assumes "grows (keeps_agent k) oc oc'"
  shows "agent_statuses (sess oc') (agent_id k) = agent_statuses (sess oc) (agent_id k)"
proof -
  from assms obtain ext where
    e: "successively (keeps_agent k) (sess oc # ext)" "sess oc' = last (sess oc # ext)"
    unfolding grows_def by blast
  have "successively (\<lambda>s s'. agent_statuses s' (agent_id k) = agent_statuses s (agent_id k))
          (sess oc # ext)"
    using e(1) unfolding keeps_agent_def [abs_def] .
  then have "\<forall>s \<in> set ext. agent_statuses s (agent_id k) = agent_statuses (sess oc) (agent_id k)"
    by (rule successively_const)
  then show ?thesis using e(2) by (cases "ext = []") simp_all
qed

text \<open>
  The entry of an agent at the end of a run that completes is the one its own step
  left: the steps of the other agents do not touch it.
\<close>

lemma pipeline_status:
  assumes "\<forall>t ctx. outcome_status (agent_execute cfg k t ctx) = v"
    and "agent_statuses (sess oc) (agent_id k) \<noteq> None"
    and "pipeline cfg sid q oc = Inr oc'"
  shows "status_of (sess oc') k = Some v"
proof -
  from assms(3) obtain o1 o2 o3 vs o4 where
    r: "run_group cfg sid q Patent_search Patent_scout oc = Inr o1"
      "run_group cfg sid q Market_analysis Market_analyst o1 = Inr o2"
      "run_group cfg sid q Tech_trends Tech_trend o2 = Inr o3"
      "verification_step cfg sid q o3 = Inr (vs, o4)"
      "synthesis_step cfg sid q vs o4 = Inr oc'"
    by (rule pipeline_Inr)
  have nt: "\<not> terminal Patent_search" "\<not> terminal Market_analysis" "\<not> terminal Tech_trends"
    by (simp_all add: terminal_def)
  note kr = keeps_agent_respected [of k]
  have k1: "k \<noteq> Patent_scout \<Longrightarrow>
              agent_statuses (sess o1) (agent_id k) = agent_statuses (sess oc) (agent_id k)"
    by (rule grows_keeps_agent [OF grows_run_group(1) [OF kr(1) _ kr(2) nt(1) r(1)]]) simp
  have k2: "k \<noteq> Market_analyst \<Longrightarrow>
              agent_statuses (sess o2) (agent_id k) = agent_statuses (sess o1) (agent_id k)"
    by (rule grows_keeps_agent [OF grows_run_group(1) [OF kr(1) _ kr(2) nt(2) r(2)]]) simp
  have k3: "k \<noteq> Tech_trend \<Longrightarrow>
              agent_statuses (sess o3) (agent_id k) = agent_statuses (sess o2) (agent_id k)"
    by (rule grows_keeps_agent [OF grows_run_group(1) [OF kr(1) _ kr(2) nt(3) r(3)]]) simp
  have k4: "k \<noteq> Verifier \<Longrightarrow>
              agent_statuses (sess o4) (agent_id k) = agent_statuses (sess o3) (agent_id k)"
    by (rule grows_keeps_agent [OF grows_verification_step(1) [OF kr(1) _ kr(2) r(4)]]) simp
  have k5: "k \<noteq> Synthesizer \<Longrightarrow>
              agent_statuses (sess oc') (agent_id k) = agent_statuses (sess o4) (agent_id k)"
    by (rule grows_keeps_agent [OF grows_synthesis_step(1) [OF kr(1) _ kr(2) kr(3) r(5)]]) simp
  show ?thesis
  proof (cases k)
    case Patent_scout
    from run_group_status [OF assms(1,2)] r(1) Patent_scout
    have "status_of (sess o1) k = Some v" by simp
    with k2 k3 k4 k5 Patent_scout show ?thesis by (simp add: status_of_def)
  next
    case Market_analyst
    with k1 assms(2) have "agent_statuses (sess o1) (agent_id k) \<noteq> None" by simp
    from run_group_status [OF assms(1) this] r(2) Market_analyst
    have "status_of (sess o2) k = Some v" by simp
    with k3 k4 k5 Market_analyst show ?thesis by (simp add: status_of_def)
  next
    case Tech_trend
    with k1 k2 assms(2) have "agent_statuses (sess o2) (agent_id k) \<noteq> None" by simp
    from run_group_status [OF assms(1) this] r(3) Tech_trend
    have "status_of (sess o3) k = Some v" by simp
    with k4 k5 Tech_trend show ?thesis by (simp add: status_of_def)
  next
    case Verifier
    with k1 k2 k3 assms(2) have "agent_statuses (sess o3) (agent_id Verifier) \<noteq> None" by simp
    from verification_step_status [OF _ this r(4)] assms(1) Verifier
    have "status_of (sess o4) k = Some v" by simp
    with k5 Verifier show ?thesis by (simp add: status_of_def)
  next
    case Synthesizer
    with k1 k2 k3 k4 assms(2) have "agent_statuses (sess o4) (agent_id Synthesizer) \<noteq> None"
      by simp
    from synthesis_step_status [OF _ this r(5)] assms(1) Synthesizer
    show ?thesis by simp
  qed
qed

lemma start_entries: "agent_statuses (sess (start cfg now q)) (agent_id k) = Some idle_status"
  by (cases k) (simp_all add: start_def new_session_def AGENT_INFO_def)

text \<open>
  C4, as stated, fails for an error that is not an \<open>Exception\<close>. The call of the market
  analyst is cancelled: \<open>CancelledError\<close> passes \<open>except Exception\<close>, \<open>run_agent\<close>
  returns no empty result and logs nothing, and the exception is the caller's. The run
  stops at that call and ends \<open>failed\<close>, not \<open>completed\<close>, with the entry of the agent
  still \<open>running\<close>; the other agents all succeed.
\<close>

theorem cancelled_agent_counterexample:
  "agent_execute (cancelled_collaborators Market_analyst) Market_analyst ''solid-state batteries''
       ([], []) = Escapes CancelledError
   \<and> run_agent (agent_id Market_analyst,
                 \<lambda>q. agent_execute (cancelled_collaborators Market_analyst) Market_analyst q ([], []))
        ''s1'' ''solid-state batteries'' = Inl CancelledError
   \<and> phase (sess (run_session (cancelled_collaborators Market_analyst) ''s1'' 0 (example_query 1)))
       = Failed
   \<and> error (sess (run_session (cancelled_collaborators Market_analyst) ''s1'' 0 (example_query 1)))
       = Some ''agent call interrupted: CancelledError''
   \<and> status_of (sess (run_session (cancelled_collaborators Market_analyst) ''s1'' 0
                        (example_query 1))) Market_analyst = Some St_running
   \<and> status_of (sess (run_session (cancelled_collaborators Market_analyst) ''s1'' 0
                        (example_query 1))) Patent_scout = Some St_completed
   \<and> logged (run_session (cancelled_collaborators Market_analyst) ''s1'' 0 (example_query 1)) = []"
  by code_simp

text \<open>
  C4, amended. An agent call that raises an \<open>Exception\<close>, whatever its cause, a timeout
  included, is caught at the call boundary, for each of the five agents: \<open>run_agent\<close>
  returns the empty result and logs the failure; the orchestrator goes on with the
  empty result, and the session after the call is the session before it with the
  entry of that agent, and of no other, set to \<open>error\<close>: findings, source counter and
  phase are what they were. An exception that is not an \<open>Exception\<close> is not caught. A
  run whose expander keeps to its fan-out and in which no call is interrupted reaches
  \<open>completed\<close> whatever the agents do; an agent that fails on every call ends with
  status \<open>error\<close>, one that succeeds on every call with status \<open>completed\<close>.
\<close>

theorem failing_agent_degrades:
  "(agent_execute cfg k t (findings (sess oc), vs) = Raises e
      \<and> (absorb = record_result k d \<or> absorb = (\<lambda>r s. s)) \<longrightarrow>
      run_agent (agent_id k, \<lambda>q. agent_execute cfg k q (findings (sess oc), vs)) sid t
        = Inr (empty_result, [agent_id k @ '' failed: '' @ error_text e])
      \<and> (\<exists>oc'. invoke_agent cfg sid k t vs absorb oc = Inr (empty_result, oc')
            \<and> sess oc' = set_agent k (\<lambda>a. a\<lparr>status := St_error, current_task := None\<rparr>) (sess oc)
            \<and> logged oc' = logged oc @ [agent_id k @ '' failed: '' @ error_text e]
            \<and> findings (sess oc') = findings (sess oc)
            \<and> sources_analyzed (sess oc') = sources_analyzed (sess oc)
            \<and> phase (sess oc') = phase (sess oc)
            \<and> (agent_statuses (sess oc) (agent_id k) \<noteq> None \<longrightarrow>
                 status_of (sess oc') k = Some St_error)
            \<and> (\<forall>k'. k' \<noteq> k \<longrightarrow>
                 agent_statuses (sess oc') (agent_id k') = agent_statuses (sess oc) (agent_id k'))))
   \<and> (agent_execute cfg k t (findings (sess oc), vs) = Escapes b \<longrightarrow>
        run_agent (agent_id k, \<lambda>q. agent_execute cfg k q (findings (sess oc), vs)) sid t = Inl b)
   \<and> (within_fan_out cfg \<and> never_interrupted cfg \<longrightarrow>
        phase (sess (run_session cfg sid now q)) = Completed
        \<and> (\<forall>a. ((\<forall>t ctx. \<exists>e. agent_execute cfg a t ctx = Raises e) \<longrightarrow>
                   status_of (sess (run_session cfg sid now q)) a = Some St_error)
                \<and> ((\<forall>t ctx. \<exists>r. agent_execute cfg a t ctx = Returns r) \<longrightarrow>
                   status_of (sess (run_session cfg sid now q)) a = Some St_completed)))"
proof (intro conjI impI allI)
  assume "agent_execute cfg k t (findings (sess oc), vs) = Escapes b"
  then show "run_agent (agent_id k, \<lambda>q. agent_execute cfg k q (findings (sess oc), vs)) sid t
               = Inl b"
    by (simp add: run_agent_def)
next
  assume a: "agent_execute cfg k t (findings (sess oc), vs) = Raises e
             \<and> (absorb = record_result k d \<or> absorb = (\<lambda>r s. s))"
  then have f: "agent_execute cfg k t (findings (sess oc), vs) = Raises e"
    and ab: "absorb = record_result k d \<or> absorb = (\<lambda>r s. s)" by simp_all
  show "run_agent (agent_id k, \<lambda>q. agent_execute cfg k q (findings (sess oc), vs)) sid t
          = Inr (empty_result, [agent_id k @ '' failed: '' @ error_text e])"
    using f by (simp add: run_agent_def)
  let ?s = "set_agent k (\<lambda>a. a\<lparr>status := St_error, current_task := None\<rparr>) (sess oc)"
  from invoke_agent_raises [OF f, of sid absorb] obtain oc' where
    i: "invoke_agent cfg sid k t vs absorb oc = Inr (empty_result, oc')"
    and s0: "sess oc' = absorb empty_result ?s"
    and l: "logged oc' = logged oc @ [agent_id k @ '' failed: '' @ error_text e]" by blast
  from ab s0 have s: "sess oc' = ?s" by (auto simp: record_result_empty)
  have st: "agent_statuses (sess oc) (agent_id k) \<noteq> None \<longrightarrow> status_of (sess oc') k = Some St_error"
    unfolding s by (auto simp: status_of_def set_agent_lookup)
  have ot: "\<forall>k'. k' \<noteq> k \<longrightarrow>
              agent_statuses (sess oc') (agent_id k') = agent_statuses (sess oc) (agent_id k')"
    unfolding s by (simp add: set_agent_lookup)
  have fi: "findings (sess oc') = findings (sess oc)"
    "sources_analyzed (sess oc') = sources_analyzed (sess oc)"
    "phase (sess oc') = phase (sess oc)"
    unfolding s by simp_all
  from i s l fi st ot
  show "\<exists>oc'. invoke_agent cfg sid k t vs absorb oc = Inr (empty_result, oc')
            \<and> sess oc' = set_agent k (\<lambda>a. a\<lparr>status := St_error, current_task := None\<rparr>) (sess oc)
            \<and> logged oc' = logged oc @ [agent_id k @ '' failed: '' @ error_text e]
            \<and> findings (sess oc') = findings (sess oc)
            \<and> sources_analyzed (sess oc') = sources_analyzed (sess oc)
            \<and> phase (sess oc') = phase (sess oc)
            \<and> (agent_statuses (sess oc) (agent_id k) \<noteq> None \<longrightarrow>
                 status_of (sess oc') k = Some St_error)
            \<and> (\<forall>k'. k' \<noteq> k \<longrightarrow>
                 agent_statuses (sess oc') (agent_id k') = agent_statuses (sess oc) (agent_id k'))"
    by blast
next
  assume "within_fan_out cfg \<and> never_interrupted cfg"
  then have w: "within_fan_out cfg" and n: "never_interrupted cfg" by simp_all
  from run_session_completes [OF w n, of sid q now] obtain oc' where
    p: "pipeline cfg sid q (start cfg now q) = Inr oc'"
    and r: "run_session cfg sid now q = oc'"
    and c: "phase (sess oc') = Completed" by blast
  show "phase (sess (run_session cfg sid now q)) = Completed" using r c by simp
  fix a
  have en: "agent_statuses (sess (start cfg now q)) (agent_id a) \<noteq> None"
    by (simp add: start_entries)
  { assume "\<forall>t ctx. \<exists>e. agent_execute cfg a t ctx = Raises e"
    then have "\<forall>t ctx. outcome_status (agent_execute cfg a t ctx) = St_error"
      by (metis outcome_status.simps(2))
    from pipeline_status [OF this en p] r
    show "status_of (sess (run_session cfg sid now q)) a = Some St_error" by simp }
  { assume "\<forall>t ctx. \<exists>r. agent_execute cfg a t ctx = Returns r"
    then have "\<forall>t ctx. outcome_status (agent_execute cfg a t ctx) = St_completed"
      by (metis outcome_status.simps(1))
    from pipeline_status [OF this en p] r
    show "status_of (sess (run_session cfg sid now q)) a = Some St_completed" by simp }
qed

theorem failing_agent_degrades_witness:
  "agent_execute (example_collaborators (Some Market_analyst) 1) Market_analyst ''q''
       (findings (sess (start (example_collaborators (Some Market_analyst) 1) 0 (example_query 1))), [])
     = Raises AgentTimeout
   \<and> (\<exists>oc'. invoke_agent (example_collaborators (Some Market_analyst) 1) ''s1'' Market_analyst ''q'' []
               (record_result Market_analyst 0)
               (start (example_collaborators (Some Market_analyst) 1) 0 (example_query 1))
             = Inr (empty_result, oc')
          \<and> findings (sess oc') = []
          \<and> status_of (sess oc') Market_analyst = Some St_error
          \<and> status_of (sess oc') Patent_scout = Some St_idle
          \<and> logged oc' = [''market_analyst failed: ''])
   \<and> within_fan_out (example_collaborators (Some Market_analyst) 1)
   \<and> never_interrupted (example_collaborators (Some Market_analyst) 1)
   \<and> phase (sess (run_session (example_collaborators (Some Market_analyst) 1) ''s1'' 0
               (example_query 1))) = Completed
   \<and> status_of (sess (run_session (example_collaborators (Some Market_analyst) 1) ''s1'' 0
               (example_query 1))) Patent_scout = Some St_completed
   \<and> status_of (sess (run_session (example_collaborators (Some Market_analyst) 1) ''s1'' 0
               (example_query 1))) Market_analyst = Some St_error
   \<and> status_of (sess (run_session (example_collaborators (Some Market_analyst) 1) ''s1'' 0
               (example_query 1))) Tech_trend = Some St_completed
   \<and> status_of (sess (run_session (example_collaborators (Some Market_analyst) 1) ''s1'' 0
               (example_query 1))) Verifier = Some St_completed
   \<and> status_of (sess (run_session (example_collaborators (Some Market_analyst) 1) ''s1'' 0
               (example_query 1))) Synthesizer = Some St_completed
   \<and> phase (sess (run_session (example_collaborators (Some Verifier) 1) ''s1'' 0
               (example_query 1))) = Completed
   \<and> status_of (sess (run_session (example_collaborators (Some Verifier) 1) ''s1'' 0
               (example_query 1))) Verifier = Some St_error
   \<and> phase (sess (run_session (example_collaborators (Some Synthesizer) 1) ''s1'' 0
               (example_query 1))) = Completed
   \<and> status_of (sess (run_session (example_collaborators (Some Synthesizer) 1) ''s1'' 0
               (example_query 1))) Synthesizer = Some St_error"
proof -
  let ?cfg = "example_collaborators (Some Market_analyst) 1"
  let ?cfgV = "example_collaborators (Some Verifier) 1"
  let ?cfgS = "example_collaborators (Some Synthesizer) 1"
  let ?oc = "start ?cfg 0 (example_query 1)"
  have e: "findings (sess ?oc) = []" by (simp add: start_def new_session_def)
  have lg: "logged ?oc = []" by (simp add: start_def)
  have f: "agent_execute ?cfg Market_analyst ''q'' (findings (sess ?oc), []) = Raises AgentTimeout"
    by (simp add: agent_execute_def example_collaborators_def)
  have ab: "record_result Market_analyst 0 = record_result Market_analyst 0
            \<or> record_result Market_analyst 0 = (\<lambda>r s. s)" by simp
  have w: "within_fan_out ?cfg" "within_fan_out ?cfgV" "within_fan_out ?cfgS"
    by (simp_all add: within_fan_out_def example_collaborators_def)
  have n: "never_interrupted ?cfg" "never_interrupted ?cfgV" "never_interrupted ?cfgS"
    by (simp_all add: never_interrupted_def example_collaborators_def)
  have ok: "\<And>cs. \<exists>vs. verify_all (contradiction_search ?cfg) cs = Inr vs"
    by (rule verify_all_never_fails) (simp add: example_collaborators_def)
  have always: "\<forall>t ctx. \<exists>e. agent_execute ?cfg Market_analyst t ctx = Raises e"
    "\<forall>t ctx. \<exists>r. agent_execute ?cfg Patent_scout t ctx = Returns r"
    "\<forall>t ctx. \<exists>r. agent_execute ?cfg Tech_trend t ctx = Returns r"
    "\<forall>t ctx. \<exists>r. agent_execute ?cfg Synthesizer t ctx = Returns r"
    by (simp_all add: agent_execute_def example_collaborators_def)
  have alwaysV: "\<forall>t ctx. \<exists>r. agent_execute ?cfg Verifier t ctx = Returns r"
  proof (intro allI)
    fix t :: string and ctx :: agent_context
    from ok [of "extract_claims ?cfg (fst ctx)"] show "\<exists>r. agent_execute ?cfg Verifier t ctx = Returns r"
      by (auto simp: agent_execute_def verifier_execute_def)
  qed
  have failV: "\<forall>t ctx. \<exists>e. agent_execute ?cfgV Verifier t ctx = Raises e"
    by (simp add: agent_execute_def verifier_execute_def example_collaborators_def verify_claim_def)
  have failS: "\<forall>t ctx. \<exists>e. agent_execute ?cfgS Synthesizer t ctx = Raises e"
    by (simp add: agent_execute_def example_collaborators_def)
  have st: "status_of (sess ?oc) Patent_scout = Some St_idle"
    "agent_statuses (sess ?oc) (agent_id Market_analyst) \<noteq> None"
    using start_entries [of ?cfg 0 "example_query 1" Patent_scout]
          start_entries [of ?cfg 0 "example_query 1" Market_analyst]
    by (simp_all add: status_of_def idle_status_def)
  note th = failing_agent_degrades [of ?cfg Market_analyst "''q''" ?oc "[]" AgentTimeout
              "record_result Market_analyst 0" 0 "''s1''" CancelledError 0 "example_query 1"]
  note thV = failing_agent_degrades [of ?cfgV Market_analyst "''q''" ?oc "[]" AgentTimeout
              "record_result Market_analyst 0" 0 "''s1''" CancelledError 0 "example_query 1"]
  note thS = failing_agent_degrades [of ?cfgS Market_analyst "''q''" ?oc "[]" AgentTimeout
              "record_result Market_analyst 0" 0 "''s1''" CancelledError 0 "example_query 1"]
  from th f ab obtain oc' where
    i: "invoke_agent ?cfg ''s1'' Market_analyst ''q'' [] (record_result Market_analyst 0) ?oc
          = Inr (empty_result, oc')"
    and fi: "findings (sess oc') = findings (sess ?oc)"
    and se: "status_of (sess oc') Market_analyst = Some St_error"
    and ot: "agent_statuses (sess oc') (agent_id Patent_scout)
               = agent_statuses (sess ?oc) (agent_id Patent_scout)"
    and l: "logged oc' = logged ?oc @ [agent_id Market_analyst @ '' failed: '' @ error_text AgentTimeout]"
    using st(2) by auto
  have 1: "\<exists>oc'. invoke_agent ?cfg ''s1'' Market_analyst ''q'' [] (record_result Market_analyst 0) ?oc
             = Inr (empty_result, oc')
          \<and> findings (sess oc') = []
          \<and> status_of (sess oc') Market_analyst = Some St_error
          \<and> status_of (sess oc') Patent_scout = Some St_idle
          \<and> logged oc' = [''market_analyst failed: '']"
    using i fi se ot l e lg st(1) by (intro exI [of _ oc']) (simp add: status_of_def)
  from th w(1) n(1) always alwaysV
  have 2: "phase (sess (run_session ?cfg ''s1'' 0 (example_query 1))) = Completed"
    "status_of (sess (run_session ?cfg ''s1'' 0 (example_query 1))) Patent_scout = Some St_completed"
    "status_of (sess (run_session ?cfg ''s1'' 0 (example_query 1))) Market_analyst = Some St_error"
    "status_of (sess (run_session ?cfg ''s1'' 0 (example_query 1))) Tech_trend = Some St_completed"
    "status_of (sess (run_session ?cfg ''s1'' 0 (example_query 1))) Verifier = Some St_completed"
    "status_of (sess (run_session ?cfg ''s1'' 0 (example_query 1))) Synthesizer = Some St_completed"
    by blast+
  from thV w(2) n(2) failV
  have 3: "phase (sess (run_session ?cfgV ''s1'' 0 (example_query 1))) = Completed"
    "status_of (sess (run_session ?cfgV ''s1'' 0 (example_query 1))) Verifier = Some St_error"
    by blast+
  from thS w(3) n(3) failS
  have 4: "phase (sess (run_session ?cfgS ''s1'' 0 (example_query 1))) = Completed"
    "status_of (sess (run_session ?cfgS ''s1'' 0 (example_query 1))) Synthesizer = Some St_error"
    by blast+
  from f 1 w(1) n(1) 2 3 4 show ?thesis by blast
qed

text \<open>
  When the verifier fails the report has no verified claim, and when the synthesizer
  fails it has no opportunity: the session goes on with what the others contributed.
\<close>

lemma degraded_reports_example:
  "map_option verification_summary
     (final_report (sess (run_session (example_collaborators (Some Verifier) 1) ''s1'' 0
                            (example_query 1)))) = Some []
   \<and> map_option (length \<circ> whitespace_opportunities)
       (final_report (sess (run_session (example_collaborators (Some Verifier) 1) ''s1'' 0
                              (example_query 1)))) = Some 1
   \<and> map_option (length \<circ> whitespace_opportunities)
       (final_report (sess (run_session (example_collaborators (Some Synthesizer) 1) ''s1'' 0
                              (example_query 1)))) = Some 0
   \<and> map_option total_sources_analyzed
       (final_report (sess (run_session (example_collaborators (Some Synthesizer) 1) ''s1'' 0
                              (example_query 1)))) = Some 10
   \<and> logged (run_session (example_collaborators (Some Verifier) 1) ''s1'' 0 (example_query 1))
       = [''verifier failed: lookup failed'']"
  by code_simp

lemma failed_run_example:
  "phases_observed (run_session (example_collaborators None 0) ''s1'' 0 (example_query 1))
     = [Queued, Patent_search, Failed]
   \<and> error (sess (run_session (example_collaborators None 0) ''s1'' 0 (example_query 1)))
       = Some ''expander returned more than the fan-out''
   \<and> final_report (sess (run_session (example_collaborators None 0) ''s1'' 0 (example_query 1)))
       = None"
  by code_simp

lemma end_to_end_example:
  "map_option total_sources_analyzed
     (final_report (sess (run_session (example_collaborators None 1) ''s1'' 0 (example_query 1))))
     = Some 10
   \<and> map sq_depth (enqueued (run_session (example_collaborators None 1) ''s1'' 0 (example_query 1)))
       = [1, 1]"
  by code_simp

section \<open>The report\<close>

lemma pollStatus_report_request:
  "GetReport \<in> set (snd (pollStatus status_response report_response d))
     \<Longrightarrow> \<exists>data. status_response = Body data \<and> ss_phase data = ''completed''"
  by (cases status_response) (auto simp: pollStatus_def Let_def split: if_splits fetched.splits)

lemma pollStatus_failed:
  assumes "status_response = Body data" and "ss_phase data = ''failed''"
  shows "d_report (fst (pollStatus status_response report_response d)) = d_report d"
    and "d_isComplete (fst (pollStatus status_response report_response d)) = d_isComplete d"
    and "d_error (fst (pollStatus status_response report_response d)) \<noteq> None"
    and "snd (pollStatus status_response report_response d) = [GetStatus]"
  using assms by (simp_all add: pollStatus_def Let_def)

text \<open>
  C6. For a stored session, \<open>get_report\<close> fails with \<open>Failed\<close> and the session's error
  message when the phase is \<open>failed\<close>, fails with \<open>NotReady\<close> in every phase other than
  \<open>failed\<close> and \<open>completed\<close>, and yields a report only in \<open>completed\<close>. For the
  snapshots of a run: a completed one has its report, a failed one has none and has a
  message. The dashboard's poll asks for the report only after a status with phase
  \<open>completed\<close>; on \<open>failed\<close> it sets the error and leaves the report unset.
\<close>

theorem get_report_only_when_completed:
  assumes "store sid = Some s"
  shows "(phase s = Failed \<longrightarrow> get_report store sid = Inl (SessionFailed (error s)))
   \<and> (phase s \<noteq> Failed \<and> phase s \<noteq> Completed \<longrightarrow> get_report store sid = Inl NotReady)
   \<and> (\<forall>r. get_report store sid = Inr r \<longrightarrow> phase s = Completed \<and> final_report s = Some r)
   \<and> (s \<in> set (history (run_session cfg rid now q)) \<longrightarrow>
        (phase s = Completed \<longrightarrow> (\<exists>r. get_report store sid = Inr r))
        \<and> (phase s = Failed \<longrightarrow>
             final_report s = None \<and> (\<exists>m. get_report store sid = Inl (SessionFailed (Some m)))))
   \<and> (GetReport \<in> set (snd (pollStatus status_response report_response d)) \<longrightarrow>
        (\<exists>data. status_response = Body data \<and> ss_phase data = ''completed''))
   \<and> (\<forall>data. status_response = Body data \<and> ss_phase data = ''failed'' \<longrightarrow>
        d_report (fst (pollStatus status_response report_response d)) = d_report d
        \<and> d_isComplete (fst (pollStatus status_response report_response d)) = d_isComplete d
        \<and> d_error (fst (pollStatus status_response report_response d)) \<noteq> None
        \<and> snd (pollStatus status_response report_response d) = [GetStatus])"
proof (intro conjI allI impI)
  assume "phase s = Failed"
  with assms show "get_report store sid = Inl (SessionFailed (error s))"
    by (simp add: get_report_def)
next
  assume "phase s \<noteq> Failed \<and> phase s \<noteq> Completed"
  with assms show "get_report store sid = Inl NotReady"
    by (simp add: get_report_def)
next
  fix r
  assume "get_report store sid = Inr r"
  with assms show "phase s = Completed" "final_report s = Some r"
    by (auto simp: get_report_def split: if_splits option.splits)
next
  assume "s \<in> set (history (run_session cfg rid now q))"
  with run_session_settled have st: "settled s" by blast
  { assume "phase s = Completed"
    with st assms show "\<exists>r. get_report store sid = Inr r"
      by (auto simp: settled_def get_report_def) }
  { assume f: "phase s = Failed"
    with st show "final_report s = None" by (auto simp: settled_def)
    from f st obtain m where "error s = Some m" by (auto simp: settled_def)
    with f assms show "\<exists>m. get_report store sid = Inl (SessionFailed (Some m))"
      by (simp add: get_report_def) }
next
  assume "GetReport \<in> set (snd (pollStatus status_response report_response d))"
  then show "\<exists>data. status_response = Body data \<and> ss_phase data = ''completed''"
    by (rule pollStatus_report_request)
next
  fix data
  assume a: "status_response = Body data \<and> ss_phase data = ''failed''"
  then have b: "status_response = Body data" and f: "ss_phase data = ''failed''" by simp_all
  from pollStatus_failed [OF b f, of report_response d]
  show "d_report (fst (pollStatus status_response report_response d)) = d_report d"
    and "d_isComplete (fst (pollStatus status_response report_response d)) = d_isComplete d"
    and "d_error (fst (pollStatus status_response report_response d)) \<noteq> None"
    and "snd (pollStatus status_response report_response d) = [GetStatus]" .
qed

theorem get_report_only_when_completed_witness:
  "phase (sess (run_session (example_collaborators None 1) ''s1'' 0 (example_query 1))) = Completed
   \<and> (\<exists>r. get_report
             [''s1'' \<mapsto> sess (run_session (example_collaborators None 1) ''s1'' 0 (example_query 1))]
             ''s1'' = Inr r)
   \<and> phase (sess (run_session (example_collaborators None 0) ''s2'' 0 (example_query 1))) = Failed
   \<and> get_report
        [''s2'' \<mapsto> sess (run_session (example_collaborators None 0) ''s2'' 0 (example_query 1))]
        ''s2'' = Inl (SessionFailed (Some ''expander returned more than the fan-out''))
   \<and> get_report [''s3'' \<mapsto> new_session 0] ''s3'' = Inl NotReady
   \<and> pollStatus (Body \<lparr>ss_session_id = ''s2'', ss_phase = ''failed'', ss_started_at = ''t'',
                        ss_agents = Map.empty, ss_sources_analyzed = 2,
                        ss_error = Some ''expander returned more than the fan-out''\<rparr>)
        (NotOk 400)
        \<lparr>d_status = None, d_report = (None :: report option), d_isComplete = False,
         d_error = None, d_polling = True\<rparr>
      = (\<lparr>d_status = Some \<lparr>ss_session_id = ''s2'', ss_phase = ''failed'', ss_started_at = ''t'',
                           ss_agents = Map.empty, ss_sources_analyzed = 2,
                           ss_error = Some ''expander returned more than the fan-out''\<rparr>,
          d_report = None, d_isComplete = False,
          d_error = Some ''expander returned more than the fan-out'', d_polling = False\<rparr>,
         [GetStatus])"
proof -
  let ?ok = "run_session (example_collaborators None 1) ''s1'' 0 (example_query 1)"
  let ?bad = "run_session (example_collaborators None 0) ''s2'' 0 (example_query 1)"
  have c: "phase (sess ?ok) = Completed" by code_simp
  have f: "phase (sess ?bad) = Failed" by code_simp
  have m: "error (sess ?bad) = Some ''expander returned more than the fan-out''" by code_simp
  have q: "phase (new_session 0) = Queued" by (simp add: new_session_def)
  have in_ok: "sess ?ok \<in> set (history ?ok)"
    using history_run_session(3,4) [OF phase_step_respected] last_in_set by metis
  let ?data = "\<lparr>ss_session_id = ''s2'', ss_phase = ''failed'', ss_started_at = ''t'',
                 ss_agents = Map.empty, ss_sources_analyzed = 2,
                 ss_error = Some ''expander returned more than the fan-out''\<rparr>"
  let ?d = "\<lparr>d_status = None, d_report = (None :: report option), d_isComplete = False,
              d_error = None, d_polling = True\<rparr>"
  have s1: "[''s1'' \<mapsto> sess ?ok] ''s1'' = Some (sess ?ok)"
    and s2: "[''s2'' \<mapsto> sess ?bad] ''s2'' = Some (sess ?bad)"
    and s3: "[''s3'' \<mapsto> new_session 0] ''s3'' = Some (new_session 0)"
    by simp_all
  note t1 = get_report_only_when_completed [of "[''s1'' \<mapsto> sess ?ok]" "''s1''" "sess ?ok"
              "example_collaborators None 1" "''s1''" 0 "example_query 1" "Body ?data" "NotOk 400" ?d,
              OF s1]
  note t2 = get_report_only_when_completed [of "[''s2'' \<mapsto> sess ?bad]" "''s2''" "sess ?bad"
              "example_collaborators None 1" "''s1''" 0 "example_query 1" "Body ?data" "NotOk 400" ?d,
              OF s2]
  note t3 = get_report_only_when_completed [of "[''s3'' \<mapsto> new_session 0]" "''s3''" "new_session 0"
              "example_collaborators None 1" "''s1''" 0 "example_query 1" "Body ?data" "NotOk 400" ?d,
              OF s3]
  have 1: "\<exists>r. get_report [''s1'' \<mapsto> sess ?ok] ''s1'' = Inr r"
    using t1 c in_ok by blast
  have 2: "get_report [''s2'' \<mapsto> sess ?bad] ''s2''
             = Inl (SessionFailed (Some ''expander returned more than the fan-out''))"
    using t2 f m by simp
  have 3: "get_report [''s3'' \<mapsto> new_session 0] ''s3'' = Inl NotReady"
    using t3 q by simp
  show ?thesis using c f 1 2 3 by (simp add: pollStatus_def)
qed

end
